theory Spec2Isabelle
  imports Complex_Main "HOL-Library.Word" "HOL-Library.Multiset" "HOL-Library.Signed_Division"
begin

section \<open>Data model (PIPixelSort.h, PISpanDetector.h)\<close>

text \<open>
  A \<^verbatim>\<open>BYTE\<close> is an unsigned 8-bit value. A pixel is the triple read by
  \<^verbatim>\<open>RowAccessor::getRGB\<close>; a line (one row or one column seen through a \<^verbatim>\<open>RowAccessor\<close>)
  is the list of its pixels, \<^verbatim>\<open>getRGB(i, ...)\<close> is \<open>row ! i\<close> and \<^verbatim>\<open>setRGB(i, ...)\<close> is
  \<open>row[i := p]\<close>. A \<^verbatim>\<open>float\<close> or \<^verbatim>\<open>double\<close> value is the real number it denotes, and every
  operation on such values is followed by the rounding of its format (next subsection).
\<close>

type_synonym BYTE = "8 word"
type_synonym rgb = "BYTE \<times> BYTE \<times> BYTE"

datatype SortDirection = kSortDirectionHorizontal | kSortDirectionVertical

datatype SortKey =
    kSortKeyBrightness | kSortKeyHue | kSortKeySaturation | kSortKeyIntensity
  | kSortKeyMinimum | kSortKeyRed | kSortKeyGreen | kSortKeyBlue

datatype IntervalMode =
    kIntervalModeThreshold | kIntervalModeRandom | kIntervalModeEdges
  | kIntervalModeWaves | kIntervalModeNone

record PixelSortParams =
  direction :: SortDirection
  sortKey :: SortKey
  intervalMode :: IntervalMode
  lowerThreshold :: int
  upperThreshold :: int
  reverse :: bool
  jitter :: int
  spanMin :: int
  spanMax :: int
  angle :: int
  falloff :: int

text \<open>\<^verbatim>\<open>struct Span { int start; int end; }\<close>: start inclusive, end exclusive.\<close>

record Span =
  start :: int
  endx :: int

text \<open>\<^verbatim>\<open>struct PixelData { BYTE r, g, b; float sortValue; }\<close>\<close>

record PixelData =
  pix :: rgb
  sortValue :: real

subsection \<open>Floating-point rounding\<close>

text \<open>
  IEEE 754 arithmetic, each operation evaluated in the format of its operands and rounded
  to the nearest value of that format, ties to the even significand: \<open>fl_round p emin x\<close>
  is the nearest multiple of \<open>2\<^sup>e\<^sup>-\<^sup>p\<^sup>+\<^sup>1\<close> to \<open>x\<close>, where \<open>e\<close> is the binary exponent of \<open>x\<close>,
  not below \<open>emin\<close>. \<^verbatim>\<open>float\<close> is binary32 (24 bits of precision), \<^verbatim>\<open>double\<close> is binary64
  (53 bits). The magnitudes of this program stay far below the largest finite values, so
  the overflow to infinity is left out.
\<close>

definition round_even :: "real \<Rightarrow> int" where
  "round_even x =
     (let f = \<lfloor>x\<rfloor>; d = x - of_int f
      in if d < 1 / 2 then f else if 1 / 2 < d then f + 1 else if even f then f else f + 1)"

definition fl_round :: "nat \<Rightarrow> int \<Rightarrow> real \<Rightarrow> real" where
  "fl_round p emin x =
     (if x = 0 then 0
      else (let e = max \<lfloor>log 2 \<bar>x\<bar>\<rfloor> emin;
                u = 2 powr (of_int e - (real p - 1))
            in of_int (round_even (x / u)) * u))"

definition f32 :: "real \<Rightarrow> real" where
  "f32 x = fl_round 24 (- 126) x"

definition f64 :: "real \<Rightarrow> real" where
  "f64 x = fl_round 53 (- 1022) x"

subsection \<open>Sort key functions\<close>

text \<open>
  A \<^verbatim>\<open>BYTE\<close> converts to \<^verbatim>\<open>float\<close> without rounding. A literal such as \<^verbatim>\<open>0.299f\<close> is the
  \<^verbatim>\<open>float\<close> nearest to the decimal.
\<close>

definition byte_val :: "BYTE \<Rightarrow> real" where
  "byte_val x = real (unat x)"

definition GetBrightness :: "rgb \<Rightarrow> real" where
  "GetBrightness p = (case p of (r, g, b) \<Rightarrow>
     f32 (f32 (f32 (f32 0.299 * byte_val r) + f32 (f32 0.587 * byte_val g))
          + f32 (f32 0.114 * byte_val b)))"

text \<open>\<^verbatim>\<open>(r + g + b) / 3.0f\<close>: the sum is an \<^verbatim>\<open>int\<close>.\<close>

definition GetIntensity :: "rgb \<Rightarrow> real" where
  "GetIntensity p = (case p of (r, g, b) \<Rightarrow> f32 (real (unat r + unat g + unat b) / 3))"

definition GetMinimum :: "rgb \<Rightarrow> real" where
  "GetMinimum p = (case p of (r, g, b) \<Rightarrow> byte_val (min r (min g b)))"

text \<open>
  \<^verbatim>\<open>fmodf\<close>: the remainder of the division truncated toward zero; the library returns
  it without a rounding error.
\<close>

definition trunc :: "real \<Rightarrow> int" where
  "trunc x = (if 0 \<le> x then \<lfloor>x\<rfloor> else \<lceil>x\<rceil>)"

definition fmodf :: "real \<Rightarrow> real \<Rightarrow> real" where
  "fmodf x y = x - y * of_int (trunc (x / y))"

definition GetHue :: "rgb \<Rightarrow> real" where
  "GetHue p = (case p of (rv, gv, bv) \<Rightarrow>
     let r = byte_val rv; g = byte_val gv; b = byte_val bv;
         maxC = max r (max g b); minC = min r (min g b);
         delta = f32 (maxC - minC)
     in if delta \<le> 0 then 0
        else let hue = (if maxC = r then f32 (60 * fmodf (f32 (f32 (g - b) / delta)) 6)
                        else if maxC = g then f32 (60 * f32 (f32 (f32 (b - r) / delta) + 2))
                        else f32 (60 * f32 (f32 (f32 (r - g) / delta) + 4)))
             in if hue < 0 then f32 (hue + 360) else hue)"

definition GetSaturation :: "rgb \<Rightarrow> real" where
  "GetSaturation p = (case p of (rv, gv, bv) \<Rightarrow>
     let r = byte_val rv; g = byte_val gv; b = byte_val bv;
         maxC = max r (max g b)
     in if maxC \<le> 0 then 0
        else let minC = min r (min g b) in f32 (f32 (maxC - minC) / maxC))"

fun GetSortValue :: "rgb \<Rightarrow> SortKey \<Rightarrow> real" where
  "GetSortValue p kSortKeyBrightness = GetBrightness p"
| "GetSortValue p kSortKeyHue = GetHue p"
| "GetSortValue p kSortKeySaturation = GetSaturation p"
| "GetSortValue p kSortKeyIntensity = GetIntensity p"
| "GetSortValue p kSortKeyMinimum = GetMinimum p"
| "GetSortValue (r, g, b) kSortKeyRed = byte_val r"
| "GetSortValue (r, g, b) kSortKeyGreen = byte_val g"
| "GetSortValue (r, g, b) kSortKeyBlue = byte_val b"

definition GetBrightnessNorm :: "rgb \<Rightarrow> real" where
  "GetBrightnessNorm p = (case p of (r, g, b) \<Rightarrow>
     f32 (f32 (f32 (f32 (f32 0.299 * byte_val r) + f32 (f32 0.587 * byte_val g))
               + f32 (f32 0.114 * byte_val b)) / 255))"

fun GetSortValueNorm :: "rgb \<Rightarrow> SortKey \<Rightarrow> real" where
  "GetSortValueNorm p kSortKeyBrightness = f32 (GetBrightness p / 255)"
| "GetSortValueNorm p kSortKeyHue = f32 (GetHue p / 360)"
| "GetSortValueNorm p kSortKeySaturation = GetSaturation p"
| "GetSortValueNorm p kSortKeyIntensity = f32 (GetIntensity p / 255)"
| "GetSortValueNorm p kSortKeyMinimum = f32 (GetMinimum p / 255)"
| "GetSortValueNorm (r, g, b) kSortKeyRed = f32 (byte_val r / 255)"
| "GetSortValueNorm (r, g, b) kSortKeyGreen = f32 (byte_val g / 255)"
| "GetSortValueNorm (r, g, b) kSortKeyBlue = f32 (byte_val b / 255)"

section \<open>Span detection (PISpanDetector.h)\<close>

subsection \<open>Threshold spans\<close>

text \<open>
  The body of the \<^verbatim>\<open>for (int i = 0; i <= n; ++i)\<close> loop of \<^verbatim>\<open>DetectSpansThreshold\<close>:
  the test of position \<open>i\<close> (false at \<open>i = n\<close>), then the two branches on \<open>spanStart\<close>.
\<close>

definition inRange_at :: "rgb list \<Rightarrow> real \<Rightarrow> real \<Rightarrow> SortKey \<Rightarrow> int \<Rightarrow> bool" where
  "inRange_at row lowerNorm upperNorm key i =
     (if i < int (length row)
      then (let val = GetSortValueNorm (row ! nat i) key
            in val \<ge> lowerNorm \<and> val \<le> upperNorm)
      else False)"

function DetectSpansThreshold_loop ::
  "rgb list \<Rightarrow> real \<Rightarrow> real \<Rightarrow> SortKey \<Rightarrow> int \<Rightarrow> int \<Rightarrow> Span list \<Rightarrow> Span list" where
  "DetectSpansThreshold_loop row lowerNorm upperNorm key i spanStart outSpans =
     (if i \<le> int (length row) then
        (let inRange = inRange_at row lowerNorm upperNorm key i in
         if inRange \<and> spanStart < 0 then
           DetectSpansThreshold_loop row lowerNorm upperNorm key (i + 1) i outSpans
         else if \<not> inRange \<and> spanStart \<ge> 0 then
           DetectSpansThreshold_loop row lowerNorm upperNorm key (i + 1) (- 1)
             (outSpans @ [\<lparr>start = spanStart, endx = i\<rparr>])
         else
           DetectSpansThreshold_loop row lowerNorm upperNorm key (i + 1) spanStart outSpans)
      else outSpans)"
  by pat_completeness auto
termination
  by (relation "measure (\<lambda>(row, lo, hi, key, i, s, out). nat (int (length row) + 1 - i))") auto

declare DetectSpansThreshold_loop.simps [simp del]

definition DetectSpansThreshold :: "rgb list \<Rightarrow> real \<Rightarrow> real \<Rightarrow> SortKey \<Rightarrow> Span list" where
  "DetectSpansThreshold row lowerNorm upperNorm key =
     (if int (length row) \<le> 0 then []
      else DetectSpansThreshold_loop row lowerNorm upperNorm key 0 (- 1) [])"

subsection \<open>The random number generator\<close>

text \<open>
  \<^verbatim>\<open>std::mt19937\<close> and \<^verbatim>\<open>std::uniform_int_distribution<int>\<close> are library code. The engine
  is a parameter \<open>gen\<close>: one call returns a raw output and the next engine state. A draw
  from the distribution over \<open>[a, b]\<close> takes one raw output and reduces it into the range,
  so that it has the library's documented range \<open>a \<le> i \<le> b\<close>.
\<close>

type_synonym 'g engine = "'g \<Rightarrow> nat \<times> 'g"

definition uniform_int :: "'g engine \<Rightarrow> int \<Rightarrow> int \<Rightarrow> 'g \<Rightarrow> int \<times> 'g" where
  "uniform_int gen a b rng =
     (case gen rng of (x, rng') \<Rightarrow> (a + int x mod (b - a + 1), rng'))"

subsection \<open>Random spans\<close>

text \<open>
  \<^verbatim>\<open>maxLen = max(11, n / 4)\<close> is computed once before the loop in the source; here it is
  recomputed in every iteration from the unchanged \<open>n\<close> (\<open>n > 0\<close> there, so the C++
  division is \<open>div\<close>).
\<close>

function DetectSpansRandom_loop ::
  "'g engine \<Rightarrow> int \<Rightarrow> int \<Rightarrow> 'g \<Rightarrow> Span list \<Rightarrow> Span list \<times> 'g" where
  "DetectSpansRandom_loop gen n i rng outSpans =
     (if i < n then
        (let maxLen = max 11 (n div 4) in
         case uniform_int gen 10 maxLen rng of (len, rng1) \<Rightarrow>
           let e = min (i + len) n in
           case uniform_int gen 1 20 rng1 of (gap, rng2) \<Rightarrow>
             DetectSpansRandom_loop gen n (e + gap) rng2
               (outSpans @ [\<lparr>start = i, endx = e\<rparr>]))
      else (outSpans, rng))"
  by pat_completeness auto
termination
  apply (relation "measure (\<lambda>(gen, n, i, rng, out). nat (n - i))")
   apply simp
  apply (clarsimp simp: uniform_int_def split: prod.splits)
  subgoal for gen n i rng y ya x1 x1a
  proof -
    assume a: "i < n"
    have ar: "\<And>A B :: int. 0 \<le> A \<Longrightarrow> 0 \<le> B \<Longrightarrow>
                 - min (i + (10 + A)) n - (1 + B) < - i"
      using a by linarith
    have "0 < max 11 (n div 4) - 9" by simp
    then have l: "0 \<le> int x1 mod (max 11 (n div 4) - 9)" by (rule pos_mod_sign)
    have g: "0 \<le> int x1a mod 20" by simp
    show ?thesis by (rule ar [OF l g])
  qed
  done

declare DetectSpansRandom_loop.simps [simp del]

definition DetectSpansRandom :: "'g engine \<Rightarrow> int \<Rightarrow> 'g \<Rightarrow> Span list \<times> 'g" where
  "DetectSpansRandom gen n rng =
     (if n \<le> 0 then ([], rng) else DetectSpansRandom_loop gen n 0 rng [])"

subsection \<open>Edge spans\<close>

text \<open>
  The statistics loop: the edge magnitudes (\<^verbatim>\<open>float\<close>), their sum and the sum of their
  squares (accumulated in \<^verbatim>\<open>double\<close>, the square itself a \<^verbatim>\<open>float\<close> product), and the
  threshold \<^verbatim>\<open>static_cast<float>(mean + stddev)\<close>.
\<close>

definition edge_values :: "real list \<Rightarrow> real list" where
  "edge_values brightnessWork =
     map (\<lambda>i. \<bar>f32 (brightnessWork ! (i + 1) - brightnessWork ! i)\<bar>)
       [0 ..< length brightnessWork - 1]"

definition edge_threshold :: "real list \<Rightarrow> real" where
  "edge_threshold edges =
     (let nEdges = real (length edges);
          edgeSum = foldl (\<lambda>s e. f64 (s + e)) 0 edges;
          edgeSumSq = foldl (\<lambda>s e. f64 (s + f32 (e * e))) 0 edges;
          mean = f64 (edgeSum / nEdges);
          variance = f64 (f64 (edgeSumSq / nEdges) - f64 (mean * mean));
          variance = (if variance < 0 then 0 else variance);
          stddev = f64 (sqrt variance)
      in f32 (f64 (mean + stddev)))"

function DetectSpansEdges_loop ::
  "real list \<Rightarrow> real \<Rightarrow> int \<Rightarrow> int \<Rightarrow> Span list \<Rightarrow> int \<times> Span list" where
  "DetectSpansEdges_loop edges threshold i prevPos outSpans =
     (if i < int (length edges) then
        (if edges ! nat i > threshold then
           (let splitPos = i + 1 in
            DetectSpansEdges_loop edges threshold (i + 1) splitPos
              (if splitPos > prevPos
               then outSpans @ [\<lparr>start = prevPos, endx = splitPos\<rparr>] else outSpans))
         else DetectSpansEdges_loop edges threshold (i + 1) prevPos outSpans)
      else (prevPos, outSpans))"
  by pat_completeness auto
termination
  by (relation "measure (\<lambda>(edges, t, i, p, out). nat (int (length edges) - i))") auto

declare DetectSpansEdges_loop.simps [simp del]

definition DetectSpansEdges :: "rgb list \<Rightarrow> Span list" where
  "DetectSpansEdges row =
     (let n = int (length row) in
      if n \<le> 0 then []
      else if n = 1 then [\<lparr>start = 0, endx = 1\<rparr>]
      else
        (let brightnessWork = map GetBrightnessNorm row;
             edges = edge_values brightnessWork;
             threshold = edge_threshold edges
         in case DetectSpansEdges_loop edges threshold 0 0 [] of (prevPos, outSpans) \<Rightarrow>
              if n > prevPos then outSpans @ [\<lparr>start = prevPos, endx = n\<rparr>] else outSpans))"

subsection \<open>Wave spans\<close>

text \<open>
  \<^verbatim>\<open>static_cast<int>\<close> of a \<^verbatim>\<open>double\<close> truncates toward zero. The phase and the length
  are computed with the library's \<^verbatim>\<open>sin\<close> in \<^verbatim>\<open>double\<close>; here they are the exact real
  values, without the rounding of the library and of the three operations.
\<close>

function DetectSpansWaves_loop :: "int \<Rightarrow> int \<Rightarrow> int \<Rightarrow> real \<Rightarrow> Span list \<Rightarrow> Span list" where
  "DetectSpansWaves_loop n waveLen i phase outSpans =
     (if i < n then
        (let len = trunc (of_int waveLen * (0.5 + 0.5 * sin phase));
             len = max 2 len;
             e = min (i + len) n
         in DetectSpansWaves_loop n waveLen e (phase + 0.5)
              (outSpans @ [\<lparr>start = i, endx = e\<rparr>]))
      else outSpans)"
  by pat_completeness auto
termination
  by (relation "measure (\<lambda>(n, w, i, ph, out). nat (n - i))") auto

declare DetectSpansWaves_loop.simps [simp del]

definition DetectSpansWaves :: "int \<Rightarrow> int \<Rightarrow> Span list" where
  "DetectSpansWaves n rowIndex =
     (if n \<le> 0 then []
      else (let waveLen = max 10 (n div 8)
            in DetectSpansWaves_loop n waveLen 0 (of_int rowIndex * 0.1) []))"

subsection \<open>None: a single span covering the full row\<close>

definition DetectSpansNone :: "int \<Rightarrow> Span list" where
  "DetectSpansNone n = (if n \<le> 0 then [] else [\<lparr>start = 0, endx = n\<rparr>])"

subsection \<open>Dispatch and filter\<close>

text \<open>The \<^verbatim>\<open>switch\<close> of \<^verbatim>\<open>DetectSpans\<close>: the spans before the length filters.\<close>

definition DetectSpans_switch ::
  "'g engine \<Rightarrow> rgb list \<Rightarrow> PixelSortParams \<Rightarrow> int \<Rightarrow> 'g \<Rightarrow> Span list \<times> 'g" where
  "DetectSpans_switch gen row params rowIndex rng =
     (let lowerNorm = f32 (f32 (real_of_int (lowerThreshold params)) / 255);
          upperNorm = f32 (f32 (real_of_int (upperThreshold params)) / 255)
      in case intervalMode params of
           kIntervalModeThreshold \<Rightarrow>
             (DetectSpansThreshold row lowerNorm upperNorm (sortKey params), rng)
         | kIntervalModeRandom \<Rightarrow> DetectSpansRandom gen (int (length row)) rng
         | kIntervalModeEdges \<Rightarrow> (DetectSpansEdges row, rng)
         | kIntervalModeWaves \<Rightarrow> (DetectSpansWaves (int (length row)) rowIndex, rng)
         | kIntervalModeNone \<Rightarrow> (DetectSpansNone (int (length row)), rng))"

text \<open>
  Filter by \<^verbatim>\<open>spanMin\<close>: the in-place compaction loop with its write index, then
  \<^verbatim>\<open>resize(writeIdx)\<close>.
\<close>

function spanMin_loop :: "int \<Rightarrow> Span list \<Rightarrow> int \<Rightarrow> int \<Rightarrow> Span list \<times> int" where
  "spanMin_loop smin outSpans i writeIdx =
     (if i < int (length outSpans) then
        (if endx (outSpans ! nat i) - start (outSpans ! nat i) \<ge> smin
         then spanMin_loop smin (outSpans[nat writeIdx := outSpans ! nat i]) (i + 1) (writeIdx + 1)
         else spanMin_loop smin outSpans (i + 1) writeIdx)
      else (outSpans, writeIdx))"
  by pat_completeness auto
termination
  by (relation "measure (\<lambda>(m, out, i, w). nat (int (length out) - i))") auto

declare spanMin_loop.simps [simp del]

definition filter_spanMin :: "int \<Rightarrow> Span list \<Rightarrow> Span list" where
  "filter_spanMin smin outSpans =
     (case spanMin_loop smin outSpans 0 0 of (out, writeIdx) \<Rightarrow> take (nat writeIdx) out)"

text \<open>
  Cap by \<^verbatim>\<open>spanMax\<close>: the inner \<^verbatim>\<open>while (s < e)\<close> loop. It runs only under
  \<^verbatim>\<open>if (params.spanMax > 0)\<close>; the test is repeated in the loop condition here.
\<close>

function spanMax_loop :: "int \<Rightarrow> int \<Rightarrow> int \<Rightarrow> Span list \<Rightarrow> Span list" where
  "spanMax_loop smax s e capped =
     (if s < e \<and> smax > 0 then
        (let e' = min (s + smax) e
         in spanMax_loop smax e' e (capped @ [\<lparr>start = s, endx = e'\<rparr>]))
      else capped)"
  by pat_completeness auto
termination
  by (relation "measure (\<lambda>(m, s, e, c). nat (e - s))") auto

declare spanMax_loop.simps [simp del]

definition cap_spanMax :: "int \<Rightarrow> Span list \<Rightarrow> Span list" where
  "cap_spanMax smax outSpans =
     foldl (\<lambda>capped sp. spanMax_loop smax (start sp) (endx sp) capped) [] outSpans"

definition post_filter :: "PixelSortParams \<Rightarrow> Span list \<Rightarrow> Span list" where
  "post_filter params outSpans =
     (let outSpans = (if spanMin params > 1 then filter_spanMin (spanMin params) outSpans
                      else outSpans)
      in if spanMax params > 0 then cap_spanMax (spanMax params) outSpans else outSpans)"

definition DetectSpans ::
  "'g engine \<Rightarrow> rgb list \<Rightarrow> PixelSortParams \<Rightarrow> int \<Rightarrow> 'g \<Rightarrow> Span list \<times> 'g" where
  "DetectSpans gen row params rowIndex rng =
     (case DetectSpans_switch gen row params rowIndex rng of
        (outSpans, rng') \<Rightarrow> (post_filter params outSpans, rng'))"

section \<open>Sorting one line (SortLine in PIPixelSortMain.cpp)\<close>

text \<open>
  \<^verbatim>\<open>std::sort\<close> is library code: it is a parameter \<open>srt\<close>, called with the comparator of
  the source, the lambda \<^verbatim>\<open>a.sortValue < b.sortValue\<close>. The C++ standard promises that
  the result is a permutation of the input in which no element is followed by one that
  compares less; it promises nothing about the order of elements that compare equal.
\<close>

type_synonym std_sort = "(PixelData \<Rightarrow> PixelData \<Rightarrow> bool) \<Rightarrow> PixelData list \<Rightarrow> PixelData list"

definition sortValue_less :: "PixelData \<Rightarrow> PixelData \<Rightarrow> bool" where
  "sortValue_less a b = (sortValue a < sortValue b)"

definition std_sort_contract :: "std_sort \<Rightarrow> bool" where
  "std_sort_contract srt =
     (\<forall>xs. mset (srt sortValue_less xs) = mset xs \<and>
           sorted_wrt (\<lambda>a b. \<not> sortValue_less b a) (srt sortValue_less xs))"

text \<open>
  The selection mask of the line is \<open>None\<close> for \<^verbatim>\<open>selectArea == NULL\<close>, otherwise the
  list of the mask values along the line (\<^verbatim>\<open>selectArea[pixelIdx * selectPixelStride]\<close>).
\<close>

definition mask_zero :: "BYTE list option \<Rightarrow> int \<Rightarrow> bool" where
  "mask_zero selectArea pixelIdx =
     (case selectArea of None \<Rightarrow> False | Some sel \<Rightarrow> sel ! nat pixelIdx = 0)"

text \<open>Collect the pixels of a span, respecting the selection mask.\<close>

function collect_loop ::
  "rgb list \<Rightarrow> SortKey \<Rightarrow> BYTE list option \<Rightarrow> int \<Rightarrow> int \<Rightarrow> int \<Rightarrow>
   PixelData list \<Rightarrow> int list \<Rightarrow> PixelData list \<times> int list" where
  "collect_loop row key selectArea spanStart spanLen i pixelsWork includedIndices =
     (if i < spanLen then
        (let pixelIdx = spanStart + i in
         if pixelIdx \<ge> int (length row) then (pixelsWork, includedIndices)
         else if mask_zero selectArea pixelIdx then
           collect_loop row key selectArea spanStart spanLen (i + 1) pixelsWork includedIndices
         else
           (let p = row ! nat pixelIdx;
                pd = \<lparr>pix = p, sortValue = GetSortValue p key\<rparr>
            in collect_loop row key selectArea spanStart spanLen (i + 1)
                 (pixelsWork @ [pd]) (includedIndices @ [i])))
      else (pixelsWork, includedIndices))"
  by pat_completeness auto
termination
  by (relation "measure (\<lambda>(row, key, sel, s, len, i, pw, inc). nat (len - i))") auto

declare collect_loop.simps [simp del]

text \<open>Jitter: one left-to-right pass of swaps, one draw per position.\<close>

definition swap :: "'a list \<Rightarrow> nat \<Rightarrow> nat \<Rightarrow> 'a list" where
  "swap xs i j = xs[i := xs ! j, j := xs ! i]"

function jitter_loop ::
  "'g engine \<Rightarrow> int \<Rightarrow> int \<Rightarrow> int \<Rightarrow> PixelData list \<Rightarrow> 'g \<Rightarrow> PixelData list \<times> 'g" where
  "jitter_loop gen jit cnt i pixelsWork rng =
     (if i < cnt then
        (case uniform_int gen (- jit) jit rng of (offset, rng') \<Rightarrow>
           let j = max 0 (min (cnt - 1) (i + offset))
           in jitter_loop gen jit cnt (i + 1) (swap pixelsWork (nat i) (nat j)) rng')
      else (pixelsWork, rng))"
  by pat_completeness auto
termination
  by (relation "measure (\<lambda>(gen, jit, cnt, i, pw, rng). nat (cnt - i))")
     (auto simp: uniform_int_def split: prod.splits)

declare jitter_loop.simps [simp del]

text \<open>
  The blend of a partially selected pixel, per channel:
  \<^verbatim>\<open>static_cast<BYTE>(((sorted - orig) * alpha / 255) + orig)\<close> on \<^verbatim>\<open>int\<close>, where \<^verbatim>\<open>/\<close>
  truncates toward zero and the cast keeps the low 8 bits.
\<close>

definition blend_channel :: "BYTE \<Rightarrow> BYTE \<Rightarrow> int \<Rightarrow> BYTE" where
  "blend_channel srtd orig alpha =
     word_of_int ((((uint srtd - uint orig) * alpha) sdiv 255) + uint orig)"

definition blend_pixel :: "rgb \<Rightarrow> rgb \<Rightarrow> int \<Rightarrow> rgb" where
  "blend_pixel srtd orig alpha =
     (case srtd of (sr, sg, sb) \<Rightarrow> case orig of (origR, origG, origB) \<Rightarrow>
        (blend_channel sr origR alpha, blend_channel sg origG alpha,
         blend_channel sb origB alpha))"

text \<open>Write back with a selection mask: only to the included positions.\<close>

function write_back_sel ::
  "BYTE list \<Rightarrow> int \<Rightarrow> int list \<Rightarrow> PixelData list \<Rightarrow> int \<Rightarrow> int \<Rightarrow> rgb list \<Rightarrow> rgb list" where
  "write_back_sel sel spanStart includedIndices pixelsWork cnt i row =
     (if i < cnt then
        (let pixelIdx = spanStart + includedIndices ! nat i;
             s = sel ! nat pixelIdx
         in if s = 255 then
              write_back_sel sel spanStart includedIndices pixelsWork cnt (i + 1)
                (row[nat pixelIdx := pix (pixelsWork ! nat i)])
            else if s > 0 then
              (let orig = row ! nat pixelIdx;
                   alpha = uint s;
                   final = blend_pixel (pix (pixelsWork ! nat i)) orig alpha
               in write_back_sel sel spanStart includedIndices pixelsWork cnt (i + 1)
                    (row[nat pixelIdx := final]))
            else write_back_sel sel spanStart includedIndices pixelsWork cnt (i + 1) row)
      else row)"
  by pat_completeness auto
termination
  by (relation "measure (\<lambda>(sel, s, inc, pw, cnt, i, row). nat (cnt - i))") auto

declare write_back_sel.simps [simp del]

text \<open>Write back without a selection mask.\<close>

function write_back_all ::
  "int \<Rightarrow> int list \<Rightarrow> PixelData list \<Rightarrow> int \<Rightarrow> int \<Rightarrow> rgb list \<Rightarrow> rgb list" where
  "write_back_all spanStart includedIndices pixelsWork cnt i row =
     (if i < cnt then
        (let pixelIdx = spanStart + includedIndices ! nat i
         in write_back_all spanStart includedIndices pixelsWork cnt (i + 1)
              (row[nat pixelIdx := pix (pixelsWork ! nat i)]))
      else row)"
  by pat_completeness auto
termination
  by (relation "measure (\<lambda>(s, inc, pw, cnt, i, row). nat (cnt - i))") auto

declare write_back_all.simps [simp del]

definition write_back ::
  "BYTE list option \<Rightarrow> int \<Rightarrow> int list \<Rightarrow> PixelData list \<Rightarrow> rgb list \<Rightarrow> rgb list" where
  "write_back selectArea spanStart includedIndices pixelsWork row =
     (let cnt = int (length pixelsWork) in
      case selectArea of
        Some sel \<Rightarrow> write_back_sel sel spanStart includedIndices pixelsWork cnt 0 row
      | None \<Rightarrow> write_back_all spanStart includedIndices pixelsWork cnt 0 row)"

text \<open>The sort of the collected pixels and the optional reversal.\<close>

definition sort_step :: "std_sort \<Rightarrow> PixelSortParams \<Rightarrow> PixelData list \<Rightarrow> PixelData list" where
  "sort_step srt params pixelsWork =
     (let pixelsWork = srt sortValue_less pixelsWork
      in if reverse params then rev pixelsWork else pixelsWork)"

text \<open>
  The pixels of a span after the sort, the reversal and the jitter: what the write-back
  consumes.
\<close>

definition arrange ::
  "'g engine \<Rightarrow> std_sort \<Rightarrow> PixelSortParams \<Rightarrow> PixelData list \<Rightarrow> 'g \<Rightarrow> PixelData list \<times> 'g" where
  "arrange gen srt params pixelsWork rng =
     (let cnt = int (length pixelsWork);
          pixelsWork = sort_step srt params pixelsWork
      in if jitter params > 0 \<and> cnt > 1
         then jitter_loop gen (jitter params) cnt 0 pixelsWork rng
         else (pixelsWork, rng))"

text \<open>Falloff: whether the span is skipped, and the generator after the draw (if any).\<close>

definition falloff_draw :: "'g engine \<Rightarrow> PixelSortParams \<Rightarrow> 'g \<Rightarrow> bool \<times> 'g" where
  "falloff_draw gen params rng =
     (if falloff params > 0
      then (case uniform_int gen 0 99 rng of (d, rng') \<Rightarrow> (d < falloff params, rng'))
      else (False, rng))"

text \<open>The body of the loop over the spans of a line.\<close>

definition SortSpan ::
  "'g engine \<Rightarrow> std_sort \<Rightarrow> PixelSortParams \<Rightarrow> BYTE list option \<Rightarrow> Span \<Rightarrow>
   rgb list \<times> 'g \<Rightarrow> rgb list \<times> 'g" where
  "SortSpan gen srt params selectArea sp st =
     (case st of (row, rng) \<Rightarrow>
      let spanStart = start sp; spanEnd = endx sp; spanLen = spanEnd - spanStart in
      if spanLen < 2 then (row, rng)
      else
        (case falloff_draw gen params rng of
           (skip, rng1) \<Rightarrow>
             if skip then (row, rng1)
             else
               (case collect_loop row (sortKey params) selectArea spanStart spanLen 0 [] [] of
                  (pixelsWork, includedIndices) \<Rightarrow>
                    if int (length pixelsWork) < 2 then (row, rng1)
                    else
                      (case arrange gen srt params pixelsWork rng1 of
                         (pixelsWork, rng2) \<Rightarrow>
                           (write_back selectArea spanStart includedIndices pixelsWork row,
                            rng2)))))"

definition SortLine ::
  "'g engine \<Rightarrow> std_sort \<Rightarrow> rgb list \<Rightarrow> PixelSortParams \<Rightarrow> BYTE list option \<Rightarrow> int \<Rightarrow> 'g \<Rightarrow>
   rgb list \<times> 'g" where
  "SortLine gen srt row params selectArea rowIndex rng =
     (if int (length row) \<le> 0 then (row, rng)
      else
        (case DetectSpans gen row params rowIndex rng of
           (spansWork, rng1) \<Rightarrow>
             foldl (\<lambda>st sp. SortSpan gen srt params selectArea sp st) (row, rng1) spansWork))"

section \<open>The full-image pass (FilterRun in PIPixelSortMain.cpp)\<close>

text \<open>
  \<^verbatim>\<open>fullImage\<close> and \<^verbatim>\<open>rotImage\<close> hold three bytes per pixel in the fixed order R, G, B;
  they are lists of pixels here, the pixel \<open>(x, y)\<close> of an image of width \<open>w\<close> at index
  \<open>y * w + x\<close>. A \<^verbatim>\<open>RowAccessor\<close> over such a buffer is a base index, a stride and a
  length: \<open>get_line\<close> reads the line it shows, \<open>put_line\<close> stores a line back.
\<close>

definition MakeDefaultParams :: PixelSortParams where
  "MakeDefaultParams =
     \<lparr>direction = kSortDirectionHorizontal, sortKey = kSortKeyBrightness,
      intervalMode = kIntervalModeThreshold, lowerThreshold = 64, upperThreshold = 204,
      reverse = False, jitter = 0, spanMin = 1, spanMax = 0, angle = 0, falloff = 0\<rparr>"

definition get_line :: "'a list \<Rightarrow> nat \<Rightarrow> nat \<Rightarrow> nat \<Rightarrow> 'a list" where
  "get_line buf base stride n = map (\<lambda>i. buf ! (base + i * stride)) [0 ..< n]"

definition put_line :: "'a list \<Rightarrow> nat \<Rightarrow> nat \<Rightarrow> 'a list \<Rightarrow> 'a list" where
  "put_line buf base stride line =
     foldl (\<lambda>b i. b[base + i * stride := line ! i]) buf [0 ..< length line]"

text \<open>The pairs \<open>(y, x)\<close> in the order of the nested loops over \<open>y < h\<close> and \<open>x < w\<close>.\<close>

definition coords :: "int \<Rightarrow> int \<Rightarrow> (int \<times> int) list" where
  "coords h w = List.product [0 .. h - 1] [0 .. w - 1]"

text \<open>The geometry of the rotated canvas, computed when \<^verbatim>\<open>useAngle\<close> holds.\<close>

record Rotation =
  cosA :: real
  sinA :: real
  cx :: real
  cy :: real
  rcx :: real
  rcy :: real
  sortW :: int
  sortH :: int

definition make_rotation :: "int \<Rightarrow> int \<Rightarrow> int \<Rightarrow> Rotation" where
  "make_rotation ang fullW fullH =
     (let rad = of_int ang * pi / 180;
          c = cos rad; s = sin rad;
          w = \<lceil>\<bar>of_int fullW * c\<bar> + \<bar>of_int fullH * s\<bar>\<rceil>;
          h = \<lceil>\<bar>of_int fullW * s\<bar> + \<bar>of_int fullH * c\<bar>\<rceil>;
          w = (if w < 1 then 1 else w);
          h = (if h < 1 then 1 else h)
      in \<lparr>cosA = c, sinA = s,
          cx = (of_int fullW - 1) / 2, cy = (of_int fullH - 1) / 2,
          rcx = (of_int w - 1) / 2, rcy = (of_int h - 1) / 2,
          sortW = w, sortH = h\<rparr>)"

text \<open>The rotate loops: one step per pixel \<open>(ry, rx)\<close> of the rotated canvas.\<close>

definition rotate_step ::
  "Rotation \<Rightarrow> int \<Rightarrow> int \<Rightarrow> rgb list \<Rightarrow> rgb list \<Rightarrow> int \<times> int \<Rightarrow> rgb list" where
  "rotate_step g fullW fullH fullImage rotImage c =
     (case c of (ry, rx) \<Rightarrow>
      let dx = of_int rx - rcx g; dy = of_int ry - rcy g;
          sx = trunc (dx * cosA g - dy * sinA g + cx g + 0.5);
          sy = trunc (dx * sinA g + dy * cosA g + cy g + 0.5)
      in if sx \<ge> 0 \<and> sx < fullW \<and> sy \<ge> 0 \<and> sy < fullH
         then rotImage[nat (ry * sortW g + rx) := fullImage ! nat (sy * fullW + sx)]
         else rotImage)"

definition Rotate :: "Rotation \<Rightarrow> int \<Rightarrow> int \<Rightarrow> rgb list \<Rightarrow> rgb list" where
  "Rotate g fullW fullH fullImage =
     foldl (rotate_step g fullW fullH fullImage)
       (replicate (nat (sortW g * sortH g)) (0, 0, 0)) (coords (sortH g) (sortW g))"

text \<open>
  The unrotate block: \<^verbatim>\<open>std::fill(fullImage.begin(), fullImage.end(), 0)\<close>, then one
  step per pixel \<open>(fy, fx)\<close> of the image.
\<close>

definition unrotate_source :: "Rotation \<Rightarrow> int \<Rightarrow> int \<Rightarrow> int \<times> int" where
  "unrotate_source g fy fx =
     (let dx = of_int fx - cx g; dy = of_int fy - cy g;
          rx = trunc (dx * cosA g + dy * sinA g + rcx g + 0.5);
          ry = trunc (- dx * sinA g + dy * cosA g + rcy g + 0.5)
      in (ry, rx))"

definition unrotate_step ::
  "Rotation \<Rightarrow> int \<Rightarrow> rgb list \<Rightarrow> rgb list \<Rightarrow> int \<times> int \<Rightarrow> rgb list" where
  "unrotate_step g fullW rotImage fullImage c =
     (case c of (fy, fx) \<Rightarrow>
      case unrotate_source g fy fx of (ry, rx) \<Rightarrow>
        if rx \<ge> 0 \<and> rx < sortW g \<and> ry \<ge> 0 \<and> ry < sortH g
        then fullImage[nat (fy * fullW + fx) := rotImage ! nat (ry * sortW g + rx)]
        else fullImage)"

definition Unrotate :: "Rotation \<Rightarrow> int \<Rightarrow> int \<Rightarrow> rgb list \<Rightarrow> rgb list \<Rightarrow> rgb list" where
  "Unrotate g fullW fullH rotImage fullImage =
     foldl (unrotate_step g fullW rotImage)
       (map (\<lambda>p. (0, 0, 0)) fullImage) (coords fullH fullW)"

text \<open>Sorting all rows, or all columns, of the sort buffer with the one shared generator.\<close>

definition sort_rows ::
  "'g engine \<Rightarrow> std_sort \<Rightarrow> PixelSortParams \<Rightarrow> int \<Rightarrow> int \<Rightarrow> bool \<Rightarrow> int \<Rightarrow> BYTE list \<Rightarrow>
   rgb list \<times> 'g \<Rightarrow> rgb list \<times> 'g" where
  "sort_rows gen srt params sW sH useAngle fullW fullSelect st =
     foldl (\<lambda>st y. case st of (sortBuf, rng) \<Rightarrow>
              let row = get_line sortBuf (nat (y * sW)) 1 (nat sW);
                  selRow = (if \<not> useAngle \<and> fullSelect \<noteq> []
                            then Some (get_line fullSelect (nat (y * fullW)) 1 (nat sW))
                            else None)
              in case SortLine gen srt row params selRow y rng of
                   (row', rng') \<Rightarrow> (put_line sortBuf (nat (y * sW)) 1 row', rng'))
       st [0 .. sH - 1]"

definition sort_columns ::
  "'g engine \<Rightarrow> std_sort \<Rightarrow> PixelSortParams \<Rightarrow> int \<Rightarrow> int \<Rightarrow> int \<Rightarrow> BYTE list \<Rightarrow>
   rgb list \<times> 'g \<Rightarrow> rgb list \<times> 'g" where
  "sort_columns gen srt params sW sH fullW fullSelect st =
     foldl (\<lambda>st x. case st of (sortBuf, rng) \<Rightarrow>
              let col = get_line sortBuf (nat x) (nat sW) (nat sH);
                  selCol = (if fullSelect \<noteq> []
                            then Some (get_line fullSelect (nat x) (nat fullW) (nat sH))
                            else None)
              in case SortLine gen srt col params selCol x rng of
                   (col', rng') \<Rightarrow> (put_line sortBuf (nat x) (nat sW) col', rng'))
       st [0 .. sW - 1]"

text \<open>Selection blending after the unrotate (angle mode only), per pixel.\<close>

definition blend_selection :: "BYTE list \<Rightarrow> rgb list \<Rightarrow> rgb list \<Rightarrow> rgb list" where
  "blend_selection fullSelect origImage fullImage =
     map (\<lambda>i. let sel = fullSelect ! i in
               if sel = 0 then origImage ! i
               else if sel < 255 then blend_pixel (fullImage ! i) (origImage ! i) (uint sel)
               else fullImage ! i)
       [0 ..< length fullImage]"

text \<open>
  One pass of the restart loop, from the gathered image to the image that is scattered
  back: the generator is re-seeded with 42 first, whatever state the previous pass left.
\<close>

definition FilterRun_pass ::
  "'g engine \<Rightarrow> (nat \<Rightarrow> 'g) \<Rightarrow> std_sort \<Rightarrow> PixelSortParams \<Rightarrow> int \<Rightarrow> int \<Rightarrow> rgb list \<Rightarrow>
   BYTE list \<Rightarrow> bool \<Rightarrow> 'g \<Rightarrow> rgb list \<times> 'g" where
  "FilterRun_pass gen seed srt currentParams fullW fullH fullImage fullSelect hasSelection rng0 =
     (let rng = seed 42 in
      if fullW > 0 \<and> fullH > 0 then
        (let useAngle = (angle currentParams \<noteq> 0 \<and>
                         direction currentParams = kSortDirectionHorizontal);
             g = make_rotation (angle currentParams) fullW fullH;
             sW = (if useAngle then sortW g else fullW);
             sH = (if useAngle then sortH g else fullH);
             sortBuf = (if useAngle then Rotate g fullW fullH fullImage else fullImage);
             origImage = fullImage
         in case (if direction currentParams = kSortDirectionHorizontal
                  then sort_rows gen srt currentParams sW sH useAngle fullW fullSelect
                         (sortBuf, rng)
                  else sort_columns gen srt currentParams sW sH fullW fullSelect
                         (sortBuf, rng)) of
              (sortBuf, rng') \<Rightarrow>
                (let fullImage = (if useAngle then Unrotate g fullW fullH sortBuf fullImage
                                  else sortBuf);
                     fullImage = (if useAngle \<and> hasSelection \<and> fullSelect \<noteq> []
                                  then blend_selection fullSelect origImage fullImage
                                  else fullImage)
                 in (fullImage, rng')))
      else (fullImage, rng))"

section \<open>std::sort as the GNU C++ library implements it\<close>

text \<open>
  \<^verbatim>\<open>std::sort\<close> of libstdc++ (\<^verbatim>\<open>bits/stl_algo.h\<close>, \<^verbatim>\<open>bits/stl_heap.h\<close>): an introsort.
  Ranges longer than 16 are partitioned around the median of three elements, the upper
  part recursively and the lower part in the loop, a heap sort taking over when the depth
  limit \<open>2 * lg n\<close> is used up; one insertion sort over the whole range finishes. The array
  is a list and an iterator is an index into it. The loops the library calls unguarded
  have no test against the bounds of the range: where such a loop would read outside the
  array the result is \<open>None\<close>.
\<close>

type_synonym 'a compare = "'a \<Rightarrow> 'a \<Rightarrow> bool"

function std_unguarded_linear_insert_loop ::
  "'a compare \<Rightarrow> 'a \<Rightarrow> 'a list \<Rightarrow> int \<Rightarrow> int \<Rightarrow> 'a list option" where
  "std_unguarded_linear_insert_loop cmp val xs lastx next =
     (if next < 0 \<or> int (length xs) \<le> next then None
      else if cmp val (xs ! nat next)
      then std_unguarded_linear_insert_loop cmp val (xs[nat lastx := xs ! nat next]) next (next - 1)
      else Some (xs[nat lastx := val]))"
  by pat_completeness auto
termination
  by (relation "measure (\<lambda>(cmp, val, xs, lastx, next). nat (next + 1))") auto

declare std_unguarded_linear_insert_loop.simps [simp del]

definition std_unguarded_linear_insert :: "'a compare \<Rightarrow> 'a list \<Rightarrow> int \<Rightarrow> 'a list option" where
  "std_unguarded_linear_insert cmp xs lastx =
     std_unguarded_linear_insert_loop cmp (xs ! nat lastx) xs lastx (lastx - 1)"

text \<open>\<^verbatim>\<open>std::move_backward\<close>: \<^verbatim>\<open>while (first != last) *--result = *--last\<close>.\<close>

function move_backward :: "'a list \<Rightarrow> int \<Rightarrow> int \<Rightarrow> int \<Rightarrow> 'a list" where
  "move_backward xs first lastx result =
     (if first < lastx
      then move_backward (xs[nat (result - 1) := xs ! nat (lastx - 1)]) first (lastx - 1) (result - 1)
      else xs)"
  by pat_completeness auto
termination
  by (relation "measure (\<lambda>(xs, first, lastx, result). nat (lastx - first))") auto

declare move_backward.simps [simp del]

function std_insertion_sort_loop ::
  "'a compare \<Rightarrow> 'a list \<Rightarrow> int \<Rightarrow> int \<Rightarrow> int \<Rightarrow> 'a list option" where
  "std_insertion_sort_loop cmp xs first lastx i =
     (if i < lastx then
        (if cmp (xs ! nat i) (xs ! nat first)
         then (let val = xs ! nat i;
                   xs = move_backward xs first i (i + 1)
               in std_insertion_sort_loop cmp (xs[nat first := val]) first lastx (i + 1))
         else (case std_unguarded_linear_insert cmp xs i of
                 None \<Rightarrow> None
               | Some xs \<Rightarrow> std_insertion_sort_loop cmp xs first lastx (i + 1)))
      else Some xs)"
  by pat_completeness auto
termination
  by (relation "measure (\<lambda>(cmp, xs, first, lastx, i). nat (lastx - i))") auto

declare std_insertion_sort_loop.simps [simp del]

definition std_insertion_sort :: "'a compare \<Rightarrow> 'a list \<Rightarrow> int \<Rightarrow> int \<Rightarrow> 'a list option" where
  "std_insertion_sort cmp xs first lastx =
     (if first = lastx then Some xs else std_insertion_sort_loop cmp xs first lastx (first + 1))"

function std_unguarded_insertion_sort ::
  "'a compare \<Rightarrow> 'a list \<Rightarrow> int \<Rightarrow> int \<Rightarrow> 'a list option" where
  "std_unguarded_insertion_sort cmp xs i lastx =
     (if i < lastx then
        (case std_unguarded_linear_insert cmp xs i of
           None \<Rightarrow> None
         | Some xs \<Rightarrow> std_unguarded_insertion_sort cmp xs (i + 1) lastx)
      else Some xs)"
  by pat_completeness auto
termination
  by (relation "measure (\<lambda>(cmp, xs, i, lastx). nat (lastx - i))") auto

declare std_unguarded_insertion_sort.simps [simp del]

definition std_final_insertion_sort ::
  "'a compare \<Rightarrow> 'a list \<Rightarrow> int \<Rightarrow> int \<Rightarrow> 'a list option" where
  "std_final_insertion_sort cmp xs first lastx =
     (if lastx - first > 16 then
        (case std_insertion_sort cmp xs first (first + 16) of
           None \<Rightarrow> None
         | Some xs \<Rightarrow> std_unguarded_insertion_sort cmp xs (first + 16) lastx)
      else std_insertion_sort cmp xs first lastx)"

text \<open>\<^verbatim>\<open>std::iter_swap\<close>\<close>

definition iter_swap :: "'a list \<Rightarrow> int \<Rightarrow> int \<Rightarrow> 'a list" where
  "iter_swap xs a b = swap xs (nat a) (nat b)"

definition std_move_median_to_first ::
  "'a compare \<Rightarrow> 'a list \<Rightarrow> int \<Rightarrow> int \<Rightarrow> int \<Rightarrow> int \<Rightarrow> 'a list" where
  "std_move_median_to_first cmp xs result a b c =
     (if cmp (xs ! nat a) (xs ! nat b) then
        (if cmp (xs ! nat b) (xs ! nat c) then iter_swap xs result b
         else if cmp (xs ! nat a) (xs ! nat c) then iter_swap xs result c
         else iter_swap xs result a)
      else if cmp (xs ! nat a) (xs ! nat c) then iter_swap xs result a
      else if cmp (xs ! nat b) (xs ! nat c) then iter_swap xs result c
      else iter_swap xs result b)"

text \<open>
  The two inner loops of \<^verbatim>\<open>__unguarded_partition\<close>: \<^verbatim>\<open>while (comp(first, pivot)) ++first\<close>
  and \<^verbatim>\<open>while (comp(pivot, last)) --last\<close>.
\<close>

function scan_up :: "'a compare \<Rightarrow> 'a list \<Rightarrow> int \<Rightarrow> int \<Rightarrow> int option" where
  "scan_up cmp xs pivot first =
     (if first < 0 \<or> int (length xs) \<le> first then None
      else if cmp (xs ! nat first) (xs ! nat pivot) then scan_up cmp xs pivot (first + 1)
      else Some first)"
  by pat_completeness auto
termination
  by (relation "measure (\<lambda>(cmp, xs, pivot, first). nat (int (length xs) - first))") auto

declare scan_up.simps [simp del]

function scan_down :: "'a compare \<Rightarrow> 'a list \<Rightarrow> int \<Rightarrow> int \<Rightarrow> int option" where
  "scan_down cmp xs pivot lastx =
     (if lastx < 0 \<or> int (length xs) \<le> lastx then None
      else if cmp (xs ! nat pivot) (xs ! nat lastx) then scan_down cmp xs pivot (lastx - 1)
      else Some lastx)"
  by pat_completeness auto
termination
  by (relation "measure (\<lambda>(cmp, xs, pivot, lastx). nat (lastx + 1))") auto

declare scan_down.simps [simp del]

function std_unguarded_partition ::
  "'a compare \<Rightarrow> 'a list \<Rightarrow> int \<Rightarrow> int \<Rightarrow> int \<Rightarrow> (int \<times> 'a list) option" where
  "std_unguarded_partition cmp xs first lastx pivot =
     (case scan_up cmp xs pivot first of
        None \<Rightarrow> None
      | Some first \<Rightarrow>
          (case scan_down cmp xs pivot (lastx - 1) of
             None \<Rightarrow> None
           | Some lastx \<Rightarrow>
               if \<not> (first < lastx) then Some (first, xs)
               else std_unguarded_partition cmp (iter_swap xs first lastx) (first + 1) lastx pivot))"
  by pat_completeness auto
termination
proof (relation "measure (\<lambda>(cmp, xs, first, lastx, pivot). nat (lastx - first))", goal_cases)
  case 1
  then show ?case by simp
next
  case (2 cmp xs first lastx pivot f l)
  have up: "scan_up cmp xs pivot first = Some f \<Longrightarrow> first \<le> f" for first f
    by (induction cmp xs pivot first rule: scan_up.induct)
       (subst (asm) scan_up.simps, auto split: if_splits)
  have down: "scan_down cmp xs pivot lastx = Some l \<Longrightarrow> l \<le> lastx" for lastx l
    by (induction cmp xs pivot lastx rule: scan_down.induct)
       (subst (asm) scan_down.simps, auto split: if_splits)
  from 2 up [of first f] down [of "lastx - 1" l] show ?case by simp
qed

declare std_unguarded_partition.simps [simp del]

definition std_unguarded_partition_pivot ::
  "'a compare \<Rightarrow> 'a list \<Rightarrow> int \<Rightarrow> int \<Rightarrow> (int \<times> 'a list) option" where
  "std_unguarded_partition_pivot cmp xs first lastx =
     (let mid = first + (lastx - first) div 2;
          xs = std_move_median_to_first cmp xs first (first + 1) mid (lastx - 1)
      in std_unguarded_partition cmp xs (first + 1) lastx first)"

text \<open>The heap sort of \<^verbatim>\<open>__partial_sort\<close>; positions are offsets from \<open>first\<close>.\<close>

function std_push_heap :: "'a compare \<Rightarrow> 'a list \<Rightarrow> nat \<Rightarrow> nat \<Rightarrow> nat \<Rightarrow> 'a \<Rightarrow> 'a list" where
  "std_push_heap cmp xs first holeIndex topIndex val =
     (let parent = (holeIndex - 1) div 2 in
      if holeIndex > topIndex \<and> cmp (xs ! (first + parent)) val
      then std_push_heap cmp (xs[first + holeIndex := xs ! (first + parent)])
             first parent topIndex val
      else xs[first + holeIndex := val])"
  by pat_completeness auto
termination
  by (relation "measure (\<lambda>(cmp, xs, first, holeIndex, topIndex, val). holeIndex)") auto

declare std_push_heap.simps [simp del]

function std_adjust_heap_loop ::
  "'a compare \<Rightarrow> 'a list \<Rightarrow> nat \<Rightarrow> nat \<Rightarrow> nat \<Rightarrow> nat \<Rightarrow> 'a list \<times> nat \<times> nat" where
  "std_adjust_heap_loop cmp xs first holeIndex len secondChild =
     (if secondChild < (len - 1) div 2 then
        (let secondChild = 2 * (secondChild + 1);
             secondChild = (if cmp (xs ! (first + secondChild)) (xs ! (first + (secondChild - 1)))
                            then secondChild - 1 else secondChild)
         in std_adjust_heap_loop cmp (xs[first + holeIndex := xs ! (first + secondChild)])
              first secondChild len secondChild)
      else (xs, holeIndex, secondChild))"
  by pat_completeness auto
termination
  by (relation "measure (\<lambda>(cmp, xs, first, holeIndex, len, secondChild). len - secondChild)")
     (auto simp add: Let_def)

declare std_adjust_heap_loop.simps [simp del]

definition std_adjust_heap :: "'a compare \<Rightarrow> 'a list \<Rightarrow> nat \<Rightarrow> nat \<Rightarrow> nat \<Rightarrow> 'a \<Rightarrow> 'a list" where
  "std_adjust_heap cmp xs first holeIndex len val =
     (let topIndex = holeIndex in
      case std_adjust_heap_loop cmp xs first holeIndex len holeIndex of
        (xs, holeIndex, secondChild) \<Rightarrow>
          if len mod 2 = 0 \<and> secondChild = (len - 2) div 2 then
            (let secondChild = 2 * (secondChild + 1);
                 xs = xs[first + holeIndex := xs ! (first + (secondChild - 1))];
                 holeIndex = secondChild - 1
             in std_push_heap cmp xs first holeIndex topIndex val)
          else std_push_heap cmp xs first holeIndex topIndex val)"

function std_make_heap_loop :: "'a compare \<Rightarrow> 'a list \<Rightarrow> nat \<Rightarrow> nat \<Rightarrow> nat \<Rightarrow> 'a list" where
  "std_make_heap_loop cmp xs first len parent =
     (let val = xs ! (first + parent);
          xs = std_adjust_heap cmp xs first parent len val
      in if parent = 0 then xs
         else std_make_heap_loop cmp xs first len (parent - 1))"
  by pat_completeness auto
termination
  by (relation "measure (\<lambda>(cmp, xs, first, len, parent). parent)") auto

declare std_make_heap_loop.simps [simp del]

definition std_make_heap :: "'a compare \<Rightarrow> 'a list \<Rightarrow> nat \<Rightarrow> nat \<Rightarrow> 'a list" where
  "std_make_heap cmp xs first lastx =
     (if lastx - first < 2 then xs
      else (let len = lastx - first; parent = (len - 2) div 2
            in std_make_heap_loop cmp xs first len parent))"

definition std_pop_heap :: "'a compare \<Rightarrow> 'a list \<Rightarrow> nat \<Rightarrow> nat \<Rightarrow> nat \<Rightarrow> 'a list" where
  "std_pop_heap cmp xs first lastx result =
     (let val = xs ! result;
          xs = xs[result := xs ! first]
      in std_adjust_heap cmp xs first 0 (lastx - first) val)"

function std_heap_select_loop :: "'a compare \<Rightarrow> 'a list \<Rightarrow> nat \<Rightarrow> nat \<Rightarrow> nat \<Rightarrow> nat \<Rightarrow> 'a list" where
  "std_heap_select_loop cmp xs first middle lastx i =
     (if i < lastx then
        std_heap_select_loop cmp
          (if cmp (xs ! i) (xs ! first) then std_pop_heap cmp xs first middle i else xs)
          first middle lastx (i + 1)
      else xs)"
  by pat_completeness auto
termination
  by (relation "measure (\<lambda>(cmp, xs, first, middle, lastx, i). lastx - i)") auto

declare std_heap_select_loop.simps [simp del]

definition std_heap_select :: "'a compare \<Rightarrow> 'a list \<Rightarrow> nat \<Rightarrow> nat \<Rightarrow> nat \<Rightarrow> 'a list" where
  "std_heap_select cmp xs first middle lastx =
     std_heap_select_loop cmp (std_make_heap cmp xs first middle) first middle lastx middle"

function std_sort_heap :: "'a compare \<Rightarrow> 'a list \<Rightarrow> nat \<Rightarrow> nat \<Rightarrow> 'a list" where
  "std_sort_heap cmp xs first lastx =
     (if lastx - first > 1
      then std_sort_heap cmp (std_pop_heap cmp xs first (lastx - 1) (lastx - 1)) first (lastx - 1)
      else xs)"
  by pat_completeness auto
termination
  by (relation "measure (\<lambda>(cmp, xs, first, lastx). lastx - first)") auto

declare std_sort_heap.simps [simp del]

definition std_partial_sort :: "'a compare \<Rightarrow> 'a list \<Rightarrow> nat \<Rightarrow> nat \<Rightarrow> nat \<Rightarrow> 'a list" where
  "std_partial_sort cmp xs first middle lastx =
     std_sort_heap cmp (std_heap_select cmp xs first middle lastx) first middle"

function std_introsort_loop ::
  "'a compare \<Rightarrow> 'a list \<Rightarrow> int \<Rightarrow> int \<Rightarrow> nat \<Rightarrow> 'a list option" where
  "std_introsort_loop cmp xs first lastx depth_limit =
     (if lastx - first > 16 then
        (if depth_limit = 0 then Some (std_partial_sort cmp xs (nat first) (nat lastx) (nat lastx))
         else
           (case std_unguarded_partition_pivot cmp xs first lastx of
              None \<Rightarrow> None
            | Some (cutx, xs) \<Rightarrow>
                (case std_introsort_loop cmp xs cutx lastx (depth_limit - 1) of
                   None \<Rightarrow> None
                 | Some xs \<Rightarrow> std_introsort_loop cmp xs first cutx (depth_limit - 1))))
      else Some xs)"
  by pat_completeness auto
termination
  by (relation "measure (\<lambda>(cmp, xs, first, lastx, depth_limit). depth_limit)") auto

declare std_introsort_loop.simps [simp del]

text \<open>\<^verbatim>\<open>__lg(n)\<close>: the position of the highest set bit of \<open>n\<close>.\<close>

fun std_lg :: "nat \<Rightarrow> nat" where
  "std_lg n = (if n \<le> 1 then 0 else 1 + std_lg (n div 2))"

declare std_lg.simps [simp del]

definition std_sort_range :: "'a compare \<Rightarrow> 'a list \<Rightarrow> int \<Rightarrow> int \<Rightarrow> 'a list option" where
  "std_sort_range cmp xs first lastx =
     (if first \<noteq> lastx then
        (case std_introsort_loop cmp xs first lastx (std_lg (nat (lastx - first)) * 2) of
           None \<Rightarrow> None
         | Some xs \<Rightarrow> std_final_insertion_sort cmp xs first lastx)
      else Some xs)"

definition std_sort_impl :: "'a compare \<Rightarrow> 'a list \<Rightarrow> 'a list option" where
  "std_sort_impl cmp xs = std_sort_range cmp xs 0 (int (length xs))"

text \<open>
  The library's sort as a value of the parameter \<open>srt\<close>. Where the library would read
  outside the array, the pixels are taken as they were handed over.
\<close>

definition gnu_sort :: "'a compare \<Rightarrow> 'a list \<Rightarrow> 'a list" where
  "gnu_sort cmp xs = (case std_sort_impl cmp xs of Some ys \<Rightarrow> ys | None \<Rightarrow> xs)"

section \<open>A sort that meets the contract\<close>

text \<open>
  Insertion sort with a comparator: an element is put in front of the elements that do
  not compare less than it, so that equal elements stay in their input order.
\<close>

fun insert_before :: "('a \<Rightarrow> 'a \<Rightarrow> bool) \<Rightarrow> 'a \<Rightarrow> 'a list \<Rightarrow> 'a list" where
  "insert_before lt x [] = [x]"
| "insert_before lt x (y # ys) =
     (if lt y x then y # insert_before lt x ys else x # y # ys)"

definition insertion_sort :: "('a \<Rightarrow> 'a \<Rightarrow> bool) \<Rightarrow> 'a list \<Rightarrow> 'a list" where
  "insertion_sort lt xs = foldr (insert_before lt) xs []"

text \<open>A generator for the closed examples: a counter that returns its state.\<close>

definition counter_gen :: "nat engine" where
  "counter_gen s = (s, s + 1)"

section \<open>The statements of the specification\<close>

text \<open>
  The qualifying positions of a span on a line of length \<open>n\<close>: the positions of the span
  on the line, without those whose mask value is zero.
\<close>

definition qualifying :: "nat \<Rightarrow> BYTE list option \<Rightarrow> Span \<Rightarrow> int list" where
  "qualifying n selectArea sp =
     filter (\<lambda>p. \<not> mask_zero selectArea p) [start sp .. min (endx sp) (int n) - 1]"

text \<open>The record collected for the pixel at position \<open>p\<close> of the line.\<close>

definition pixel_data :: "rgb list \<Rightarrow> SortKey \<Rightarrow> int \<Rightarrow> PixelData" where
  "pixel_data row key p = \<lparr>pix = row ! nat p, sortValue = GetSortValue (row ! nat p) key\<rparr>"

text \<open>
  What the write-back leaves at position \<open>p\<close> when it is handed the pixel \<open>v\<close> for it:
  \<open>v\<close> itself without a mask or under the mask value 255, the blend with the pixel
  that is there under a mask value between 0 and 255, the pixel that is there under 0.
\<close>

definition written :: "BYTE list option \<Rightarrow> rgb list \<Rightarrow> int \<Rightarrow> rgb \<Rightarrow> rgb" where
  "written selectArea row p v =
     (case selectArea of
        None \<Rightarrow> v
      | Some sel \<Rightarrow>
          if sel ! nat p = 255 then v
          else if sel ! nat p > 0 then blend_pixel v (row ! nat p) (uint (sel ! nat p))
          else row ! nat p)"

text \<open>The write-back as one pass over the positions \<open>ps\<close> and the pixels handed to them.\<close>

definition write_seq ::
  "BYTE list option \<Rightarrow> int list \<Rightarrow> PixelData list \<Rightarrow> rgb list \<Rightarrow> rgb list" where
  "write_seq selectArea ps pixelsWork row =
     foldl (\<lambda>r qv. case qv of (q, v) \<Rightarrow> r[nat q := written selectArea r q (pix v)])
       row (zip ps pixelsWork)"

text \<open>The mask does not ask for a blend at position \<open>p\<close>: no mask, or the value 255.\<close>

definition mask_full :: "BYTE list option \<Rightarrow> int \<Rightarrow> bool" where
  "mask_full selectArea p =
     (case selectArea of None \<Rightarrow> True | Some sel \<Rightarrow> sel ! nat p = 255)"

definition mask_len_ok :: "BYTE list option \<Rightarrow> nat \<Rightarrow> bool" where
  "mask_len_ok selectArea n =
     (case selectArea of None \<Rightarrow> True | Some sel \<Rightarrow> length sel = n)"

text \<open>A position lies in a span.\<close>

definition in_span :: "int \<Rightarrow> Span \<Rightarrow> bool" where
  "in_span p sp = (start sp \<le> p \<and> p < endx sp)"

text \<open>
  The post-filter in the words of the specification: drop every span shorter than
  \<open>spanMin\<close>; then, if \<open>spanMax > 0\<close>, replace every remaining span by its consecutive
  sub-spans of length \<open>spanMax\<close>, the last one cut at the end of the span.
\<close>

definition sub_spans :: "int \<Rightarrow> Span \<Rightarrow> Span list" where
  "sub_spans m sp =
     map (\<lambda>k. \<lparr>start = start sp + k * m, endx = min (start sp + (k + 1) * m) (endx sp)\<rparr>)
       [0 .. (endx sp - start sp - 1) div m]"

definition post_filter_spec :: "PixelSortParams \<Rightarrow> Span list \<Rightarrow> Span list" where
  "post_filter_spec params spans =
     (let kept = filter (\<lambda>sp. \<not> endx sp - start sp < spanMin params) spans
      in if spanMax params > 0 then concat (map (sub_spans (spanMax params)) kept) else kept)"

text \<open>
  The length of the \<open>k\<close>-th wave span before clipping: with \<open>round\<close>, as the specification
  words it, and with the truncation of the source.
\<close>

definition wave_phase :: "int \<Rightarrow> nat \<Rightarrow> real" where
  "wave_phase lineIndex k = of_int lineIndex * 0.1 + 0.5 * of_nat k"

definition wave_length_round :: "int \<Rightarrow> int \<Rightarrow> nat \<Rightarrow> int" where
  "wave_length_round n lineIndex k =
     max 2 (round (of_int (max 10 (n div 8)) * (0.5 + 0.5 * sin (wave_phase lineIndex k))))"

definition wave_length_trunc :: "int \<Rightarrow> int \<Rightarrow> nat \<Rightarrow> int" where
  "wave_length_trunc n lineIndex k =
     max 2 (trunc (of_int (max 10 (n div 8)) * (0.5 + 0.5 * sin (wave_phase lineIndex k))))"

text \<open>
  Consecutive spans from 0 whose lengths are given by \<open>len\<close>, clipped to the line end \<open>n\<close>
  and covering the line.
\<close>

definition consecutive_spans :: "(nat \<Rightarrow> int) \<Rightarrow> int \<Rightarrow> Span list \<Rightarrow> bool" where
  "consecutive_spans len n spans =
     (spans \<noteq> [] \<and> start (hd spans) = 0 \<and> endx (last spans) = n \<and>
      (\<forall>k < length spans.
         endx (spans ! k) = min (start (spans ! k) + len k) n \<and>
         (Suc k < length spans \<longrightarrow> start (spans ! Suc k) = endx (spans ! k))))"

text \<open>Spans on a line of length \<open>n\<close>: each within the line and not empty, in ascending
  order, pairwise disjoint.\<close>

definition span_ok :: "int \<Rightarrow> Span \<Rightarrow> bool" where
  "span_ok n sp = (0 \<le> start sp \<and> start sp < endx sp \<and> endx sp \<le> n)"

definition spans_ascending :: "Span list \<Rightarrow> bool" where
  "spans_ascending spans = sorted_wrt (\<lambda>a b. endx a \<le> start b) spans"

text \<open>The same, for spans that lie between \<open>lo\<close> and \<open>hi\<close>: the invariant of the loops.\<close>

definition spans_within :: "int \<Rightarrow> int \<Rightarrow> Span list \<Rightarrow> bool" where
  "spans_within lo hi spans =
     (spans_ascending spans \<and>
      (\<forall>sp\<in>set spans. lo \<le> start sp \<and> start sp < endx sp \<and> endx sp \<le> hi))"

text \<open>
  The runs of the loop of \<open>DetectSpansThreshold\<close>, in terms of its own test: the
  intermediate form of the proof below.
\<close>

definition maximal_run :: "rgb list \<Rightarrow> real \<Rightarrow> real \<Rightarrow> SortKey \<Rightarrow> int \<Rightarrow> int \<Rightarrow> bool" where
  "maximal_run row lowerNorm upperNorm key s e =
     (0 \<le> s \<and> s < e \<and> e \<le> int (length row) \<and>
      (\<forall>i. s \<le> i \<and> i < e \<longrightarrow> inRange_at row lowerNorm upperNorm key i) \<and>
      \<not> (0 < s \<and> inRange_at row lowerNorm upperNorm key (s - 1)) \<and>
      \<not> inRange_at row lowerNorm upperNorm key e)"

text \<open>
  C3 in the words of the specification. A threshold is divided by 255 in \<^verbatim>\<open>float\<close>. A
  position of the line is in range when the normalized sort value of its pixel is not
  below the lower and not above the upper bound. A maximal run of a property over the
  positions \<open>0 \<le> i < n\<close> is an interval \<open>[s, e)\<close> of positions that all have the property,
  that is not preceded and not followed by a position with the property; a run that
  reaches the end of the line has \<open>e = n\<close>.
\<close>

definition norm_threshold :: "int \<Rightarrow> real" where
  "norm_threshold t = f32 (f32 (real_of_int t) / 255)"

definition in_range :: "rgb list \<Rightarrow> real \<Rightarrow> real \<Rightarrow> SortKey \<Rightarrow> int \<Rightarrow> bool" where
  "in_range row lowerNorm upperNorm key i =
     (0 \<le> i \<and> i < int (length row) \<and>
      lowerNorm \<le> GetSortValueNorm (row ! nat i) key \<and>
      GetSortValueNorm (row ! nat i) key \<le> upperNorm)"

definition maximal_run_of :: "(int \<Rightarrow> bool) \<Rightarrow> int \<Rightarrow> int \<Rightarrow> int \<Rightarrow> bool" where
  "maximal_run_of P n s e =
     (0 \<le> s \<and> s < e \<and> e \<le> n \<and>
      (\<forall>i. s \<le> i \<and> i < e \<longrightarrow> P i) \<and>
      (0 < s \<longrightarrow> \<not> P (s - 1)) \<and>
      (e < n \<longrightarrow> \<not> P e))"

section \<open>Evaluation on concrete inputs\<close>

lemmas key_eval = GetSaturation_def GetBrightness_def GetIntensity_def GetMinimum_def
  byte_val_def sortValue_less_def

lemmas detect_eval = DetectSpans_def DetectSpans_switch_def DetectSpansThreshold_def
  DetectSpansThreshold_loop.simps inRange_at_def DetectSpansNone_def post_filter_def
  filter_spanMin_def spanMin_loop.simps cap_spanMax_def spanMax_loop.simps
  MakeDefaultParams_def

lemmas line_eval = SortLine_def SortSpan_def falloff_draw_def collect_loop.simps mask_zero_def
  arrange_def sort_step_def write_back_def write_back_sel.simps write_back_all.simps
  blend_pixel_def blend_channel_def signed_divide_int_def
  insertion_sort_def

section \<open>Rounding on concrete values\<close>

text \<open>
  The rounding of a value whose binary exponent is known: \<open>n\<close> for a magnitude in
  \<open>[2\<^sup>n, 2\<^sup>n\<^sup>+\<^sup>1)\<close>, \<open>- n\<close> for a magnitude in \<open>[2\<^sup>-\<^sup>n, 2\<^sup>1\<^sup>-\<^sup>n)\<close>.
\<close>

lemma floor_log2_up:
  assumes "2 ^ n \<le> \<bar>x\<bar>" "\<bar>x\<bar> < 2 * 2 ^ n"
  shows "\<lfloor>log 2 \<bar>x\<bar>\<rfloor> = int n"
proof -
  have pos: "0 < \<bar>x\<bar>" using assms(1) by (smt (verit) zero_less_power)
  have "2 powr (of_int (int n)) \<le> \<bar>x\<bar>" using assms(1) by (simp add: powr_realpow)
  moreover have "\<bar>x\<bar> < 2 powr (of_int (int n + 1))"
    using assms(2) by (simp add: powr_realpow powr_add)
  ultimately show ?thesis
    using pos by (simp add: floor_log_eq_powr_iff)
qed

lemma floor_log2_down:
  assumes "1 \<le> \<bar>x\<bar> * 2 ^ n" "\<bar>x\<bar> * 2 ^ n < 2"
  shows "\<lfloor>log 2 \<bar>x\<bar>\<rfloor> = - int n"
proof -
  have pos: "0 < \<bar>x\<bar>" using assms(1) by (smt (verit) mult_nonneg_nonneg zero_le_power mult_eq_0_iff)
  have p: "2 powr (- real n) = 1 / 2 ^ n" by (simp add: powr_minus powr_realpow divide_inverse)
  have "2 powr (of_int (- int n)) \<le> \<bar>x\<bar>"
    using assms(1) by (simp add: p field_simps)
  moreover have "\<bar>x\<bar> < 2 powr (of_int (- int n + 1))"
  proof -
    have q: "2 powr (1 - real n) = 2 / 2 ^ n" by (simp add: powr_diff powr_realpow)
    have "\<bar>x\<bar> < 2 / 2 ^ n" using assms(2) by (simp add: field_simps)
    then show ?thesis by (simp add: q)
  qed
  ultimately show ?thesis
    using pos by (simp add: floor_log_eq_powr_iff)
qed

lemma f32_up:
  assumes "2 ^ n \<le> \<bar>x\<bar>" "\<bar>x\<bar> < 2 * 2 ^ n"
  shows "f32 x = of_int (round_even (x * 2 ^ 23 / 2 ^ n)) * 2 ^ n / 2 ^ 23"
proof -
  have nz: "x \<noteq> 0" using assms(1) by (smt (verit) zero_less_power abs_zero)
  have e: "max \<lfloor>log 2 \<bar>x\<bar>\<rfloor> (- 126) = int n"
    using floor_log2_up [OF assms] by simp
  have u: "2 powr (of_int (int n) - (real 24 - 1)) = 2 ^ n / (2 ^ 23 :: real)"
    by (simp add: powr_diff powr_realpow)
  show ?thesis
    unfolding f32_def fl_round_def Let_def e u using nz by (simp add: field_simps)
qed

lemma f32_down:
  assumes "1 \<le> \<bar>x\<bar> * 2 ^ n" "\<bar>x\<bar> * 2 ^ n < 2" "n \<le> 126"
  shows "f32 x = of_int (round_even (x * 2 ^ 23 * 2 ^ n)) / (2 ^ 23 * 2 ^ n)"
proof -
  have nz: "x \<noteq> 0" using assms(1) by auto
  have e: "max \<lfloor>log 2 \<bar>x\<bar>\<rfloor> (- 126) = - int n"
    using floor_log2_down [OF assms(1,2)] assms(3) by simp
  have u: "2 powr (of_int (- int n) - (real 24 - 1)) = 1 / (2 ^ 23 * 2 ^ n :: real)"
    by (simp add: powr_diff powr_minus powr_realpow field_simps)
  show ?thesis
    unfolding f32_def fl_round_def Let_def e u using nz by (simp add: field_simps)
qed

text \<open>The roundings that the closed examples below go through.\<close>

lemma f32_c3_0: "f32 (64) = 64"
  by (subst f32_up [where n = 6]) (simp_all add: round_even_def)

lemma f32_c3_1: "f32 (64 / 255) = 8421505 / 33554432"
  by (subst f32_down [where n = 2]) (simp_all add: round_even_def)

lemma f32_c3_2: "f32 (204) = 204"
  by (subst f32_up [where n = 7]) (simp_all add: round_even_def)

lemma f32_c3_3: "f32 (4 / 5) = 13421773 / 16777216"
  by (subst f32_down [where n = 1]) (simp_all add: round_even_def)

lemma f32_c3_4: "f32 (299 / 1000) = 10032775 / 33554432"
  by (subst f32_down [where n = 2]) (simp_all add: round_even_def)

lemma f32_c3_5: "f32 (587 / 1000) = 4924113 / 8388608"
  by (subst f32_down [where n = 1]) (simp_all add: round_even_def)

lemma f32_c3_6: "f32 (57 / 500) = 15300821 / 134217728"
  by (subst f32_down [where n = 4]) (simp_all add: round_even_def)

lemma f32_c3_7: "f32 (1294227975 / 33554432) = 2527789 / 65536"
  by (subst f32_up [where n = 5]) (simp_all add: round_even_def)

lemma f32_c3_8: "f32 (1226104137 / 8388608) = 9578939 / 65536"
  by (subst f32_up [where n = 7]) (simp_all add: round_even_def)

lemma f32_c3_9: "f32 (1513341 / 8192) = 1513341 / 8192"
  by (subst f32_up [where n = 7]) (simp_all add: round_even_def)

lemma f32_c3_10: "f32 (2585838749 / 134217728) = 10100933 / 524288"
  by (subst f32_up [where n = 4]) (simp_all add: round_even_def)

lemma f32_c3_11: "f32 (106954757 / 524288) = 13369345 / 65536"
  by (subst f32_up [where n = 7]) (simp_all add: round_even_def)

lemma f32_c3_12: "f32 (2673869 / 3342336) = 6710887 / 8388608"
  by (subst f32_down [where n = 1]) (simp_all add: round_even_def)

lemma f32_c3_13: "f32 (250819375 / 8388608) = 15676211 / 524288"
  by (subst f32_up [where n = 4]) (simp_all add: round_even_def)

lemma f32_c3_14: "f32 (123102825 / 2097152) = 15387853 / 262144"
  by (subst f32_up [where n = 5]) (simp_all add: round_even_def)

lemma f32_c3_15: "f32 (46451917 / 524288) = 11612979 / 131072"
  by (subst f32_up [where n = 6]) (simp_all add: round_even_def)

lemma f32_c3_16: "f32 (382520525 / 33554432) = 5976883 / 524288"
  by (subst f32_up [where n = 3]) (simp_all add: round_even_def)

lemma f32_c3_17: "f32 (52428799 / 524288) = 100"
  by (subst f32_up [where n = 6]) (simp_all add: round_even_def)

lemma f32_c3_18: "f32 (20 / 51) = 13158601 / 33554432"
  by (subst f32_down [where n = 2]) (simp_all add: round_even_def)

lemma f32_c3_19: "f32 (1013310275 / 33554432) = 15832973 / 524288"
  by (subst f32_up [where n = 4]) (simp_all add: round_even_def)

lemma f32_c3_20: "f32 (280674441 / 8388608) = 2192769 / 65536"
  by (subst f32_up [where n = 5]) (simp_all add: round_even_def)

lemma f32_c3_21: "f32 (33375125 / 524288) = 8343781 / 131072"
  by (subst f32_up [where n = 5]) (simp_all add: round_even_def)

lemma f32_c3_22: "f32 (45902463 / 134217728) = 358613 / 1048576"
  by (subst f32_down [where n = 2]) (simp_all add: round_even_def)

lemma f32_c3_23: "f32 (67108861 / 1048576) = 16777215 / 262144"
  by (subst f32_up [where n = 5]) (simp_all add: round_even_def)

lemma f32_c3_24: "f32 (65793 / 262144) = 65793 / 262144"
  by (subst f32_down [where n = 2]) (simp_all add: round_even_def)

lemmas f32_c3 = f32_c3_0 f32_c3_1 f32_c3_2 f32_c3_3 f32_c3_4 f32_c3_5 f32_c3_6 f32_c3_7 f32_c3_8 f32_c3_9 f32_c3_10 f32_c3_11 f32_c3_12 f32_c3_13 f32_c3_14 f32_c3_15 f32_c3_16 f32_c3_17 f32_c3_18 f32_c3_19 f32_c3_20 f32_c3_21 f32_c3_22 f32_c3_23 f32_c3_24

lemma f32_ex_0: "f32 (1) = 1"
  by (subst f32_up [where n = 0]) (simp_all add: round_even_def)

lemma f32_ex_1: "f32 (1 / 10) = 13421773 / 134217728"
  by (subst f32_down [where n = 4]) (simp_all add: round_even_def)

lemma f32_ex_2: "f32 (5) = 5"
  by (subst f32_up [where n = 2]) (simp_all add: round_even_def)

lemma f32_ex_3: "f32 (1 / 2) = 1 / 2"
  by (subst f32_down [where n = 1]) (simp_all add: round_even_def)

lemma f32_ex_4: "f32 (9) = 9"
  by (subst f32_up [where n = 3]) (simp_all add: round_even_def)

lemma f32_ex_5: "f32 (9 / 10) = 7549747 / 8388608"
  by (subst f32_down [where n = 1]) (simp_all add: round_even_def)

lemma f32_ex_6: "f32 (2) = 2"
  by (subst f32_up [where n = 1]) (simp_all add: round_even_def)

lemma f32_ex_7: "f32 (1 / 5) = 13421773 / 67108864"
  by (subst f32_down [where n = 3]) (simp_all add: round_even_def)

lemma f32_ex_8: "f32 (3 / 10) = 5033165 / 16777216"
  by (subst f32_down [where n = 2]) (simp_all add: round_even_def)

lemma f32_ex_9: "f32 (3 / 5) = 5033165 / 8388608"
  by (subst f32_down [where n = 1]) (simp_all add: round_even_def)

lemmas f32_ex = f32_ex_0 f32_ex_1 f32_ex_2 f32_ex_3 f32_ex_4 f32_ex_5 f32_ex_6 f32_ex_7 f32_ex_8 f32_ex_9

lemma f32_c10_0: "f32 (40) = 40"
  by (subst f32_up [where n = 5]) (simp_all add: round_even_def)

lemma f32_c10_1: "f32 (8 / 51) = 10526881 / 67108864"
  by (subst f32_down [where n = 3]) (simp_all add: round_even_def)

lemma f32_c10_2: "f32 (250) = 250"
  by (subst f32_up [where n = 7]) (simp_all add: round_even_def)

lemma f32_c10_3: "f32 (50 / 51) = 16448251 / 16777216"
  by (subst f32_down [where n = 1]) (simp_all add: round_even_def)

lemma f32_c10_4: "f32 (3 / 85) = 9474193 / 268435456"
  by (subst f32_down [where n = 5]) (simp_all add: round_even_def)

lemma f32_c10_5: "f32 (40 / 51) = 13158601 / 16777216"
  by (subst f32_down [where n = 1]) (simp_all add: round_even_def)

lemma f32_c10_6: "f32 (20 / 51) = 13158601 / 33554432"
  by (subst f32_down [where n = 2]) (simp_all add: round_even_def)

lemma f32_c10_7: "f32 (10 / 51) = 13158601 / 67108864"
  by (subst f32_down [where n = 3]) (simp_all add: round_even_def)

lemma f32_c10_8: "f32 (7 / 255) = 14737633 / 536870912"
  by (subst f32_down [where n = 6]) (simp_all add: round_even_def)

lemmas f32_c10 = f32_c10_0 f32_c10_1 f32_c10_2 f32_c10_3 f32_c10_4 f32_c10_5 f32_c10_6 f32_c10_7 f32_c10_8

section \<open>Threshold spans are the maximal runs\<close>

lemma maximal_run_end_unique:
  assumes "maximal_run row lo hi key s e" "maximal_run row lo hi key s' e"
  shows "s = s'"
proof (rule ccontr)
  assume ne: "s \<noteq> s'"
  show False
  proof (cases "s < s'")
    case True
    then have "s \<le> s' - 1 \<and> s' - 1 < e" using assms unfolding maximal_run_def by linarith
    then have "inRange_at row lo hi key (s' - 1)" using assms(1) unfolding maximal_run_def by blast
    moreover have "0 < s'" using True assms(1) unfolding maximal_run_def by linarith
    ultimately show False using assms(2) unfolding maximal_run_def by blast
  next
    case False
    with ne have lt: "s' < s" by simp
    then have "s' \<le> s - 1 \<and> s - 1 < e" using assms unfolding maximal_run_def by linarith
    then have "inRange_at row lo hi key (s - 1)" using assms(2) unfolding maximal_run_def by blast
    moreover have "0 < s" using lt assms(2) unfolding maximal_run_def by linarith
    ultimately show False using assms(1) unfolding maximal_run_def by blast
  qed
qed

lemma runs_step_none:
  assumes "\<And>s. \<not> maximal_run row lo hi key s i"
  shows "{sp. maximal_run row lo hi key (start sp) (endx sp) \<and> endx sp < i + 1} =
         {sp. maximal_run row lo hi key (start sp) (endx sp) \<and> endx sp < i}"
proof -
  have "\<And>sp. maximal_run row lo hi key (start sp) (endx sp) \<Longrightarrow> endx sp < i + 1 \<Longrightarrow> endx sp < i"
  proof -
    fix sp assume m: "maximal_run row lo hi key (start sp) (endx sp)" and l: "endx sp < i + 1"
    have "endx sp \<noteq> i" using m assms by metis
    then show "endx sp < i" using l by simp
  qed
  then show ?thesis by auto
qed

lemma runs_step_push:
  assumes "maximal_run row lo hi key s0 i"
  shows "{sp. maximal_run row lo hi key (start sp) (endx sp) \<and> endx sp < i + 1} =
         insert \<lparr>start = s0, endx = i\<rparr>
           {sp. maximal_run row lo hi key (start sp) (endx sp) \<and> endx sp < i}"
proof (intro set_eqI iffI)
  fix sp :: Span
  assume "sp \<in> {sp. maximal_run row lo hi key (start sp) (endx sp) \<and> endx sp < i + 1}"
  then have m: "maximal_run row lo hi key (start sp) (endx sp)" and l: "endx sp < i + 1" by auto
  show "sp \<in> insert \<lparr>start = s0, endx = i\<rparr>
           {sp. maximal_run row lo hi key (start sp) (endx sp) \<and> endx sp < i}"
  proof (cases "endx sp = i")
    case True
    then have "start sp = s0" using m assms maximal_run_end_unique by metis
    then have "sp = \<lparr>start = s0, endx = i\<rparr>" using True by (cases sp) simp
    then show ?thesis by simp
  next
    case False
    then show ?thesis using m l by simp
  qed
next
  fix sp :: Span
  assume "sp \<in> insert \<lparr>start = s0, endx = i\<rparr>
           {sp. maximal_run row lo hi key (start sp) (endx sp) \<and> endx sp < i}"
  then show "sp \<in> {sp. maximal_run row lo hi key (start sp) (endx sp) \<and> endx sp < i + 1}"
    using assms by auto
qed

lemma inRange_at_off: "int (length row) \<le> i \<Longrightarrow> \<not> inRange_at row lo hi key i"
  by (simp add: inRange_at_def)

lemma threshold_loop_runs:
  assumes "0 \<le> i"
    and "spanStart < 0 \<or>
         (0 \<le> spanStart \<and> spanStart < i \<and>
          (\<forall>j. spanStart \<le> j \<and> j < i \<longrightarrow> inRange_at row lo hi key j) \<and>
          \<not> (0 < spanStart \<and> inRange_at row lo hi key (spanStart - 1)))"
    and "spanStart < 0 \<longrightarrow> i = 0 \<or> \<not> inRange_at row lo hi key (i - 1)"
    and "set out = {sp. maximal_run row lo hi key (start sp) (endx sp) \<and> endx sp < i}"
    and "sorted_wrt (\<lambda>a b. endx a < start b) out"
  shows "set (DetectSpansThreshold_loop row lo hi key i spanStart out) =
           {sp. maximal_run row lo hi key (start sp) (endx sp)} \<and>
         sorted_wrt (\<lambda>a b. endx a < start b)
           (DetectSpansThreshold_loop row lo hi key i spanStart out)"
  using assms
proof (induction row lo hi key i spanStart out rule: DetectSpansThreshold_loop.induct)
  case (1 row lo hi key i spanStart out)
  let ?n = "int (length row)"
  let ?R = "inRange_at row lo hi key"
  let ?M = "maximal_run row lo hi key"
  note simps = DetectSpansThreshold_loop.simps [of row lo hi key i spanStart out]
  show ?case
  proof (cases "i \<le> ?n")
    case False
    have "\<And>sp. ?M (start sp) (endx sp) \<Longrightarrow> endx sp < i"
      using False unfolding maximal_run_def by linarith
    then have "{sp. ?M (start sp) (endx sp) \<and> endx sp < i} = {sp. ?M (start sp) (endx sp)}"
      by auto
    then show ?thesis using False "1.prems" by (simp add: simps)
  next
    case le: True
    show ?thesis
    proof (cases "?R i \<and> spanStart < 0")
      case a: True
      have no: "\<And>s. \<not> ?M s i" using a unfolding maximal_run_def by blast
      have st: "set out = {sp. ?M (start sp) (endx sp) \<and> endx sp < i + 1}"
        by (simp only: runs_step_none [of row lo hi key i, OF no] "1.prems"(4))
      have p2: "i < 0 \<or> (0 \<le> i \<and> i < i + 1 \<and> (\<forall>j. i \<le> j \<and> j < i + 1 \<longrightarrow> ?R j) \<and>
                  \<not> (0 < i \<and> ?R (i - 1)))"
      proof -
        have "\<forall>j. i \<le> j \<and> j < i + 1 \<longrightarrow> ?R j"
        proof (intro allI impI)
          fix j assume "i \<le> j \<and> j < i + 1"
          then have "j = i" by simp
          then show "?R j" using a by simp
        qed
        moreover have "\<not> (0 < i \<and> ?R (i - 1))" using "1.prems"(3) a by auto
        ultimately show ?thesis using "1.prems"(1) by simp
      qed
      have p3: "i < 0 \<longrightarrow> i + 1 = 0 \<or> \<not> ?R (i + 1 - 1)" using "1.prems"(1) by simp
      have "set (DetectSpansThreshold_loop row lo hi key (i + 1) i out) =
              {sp. ?M (start sp) (endx sp)} \<and>
            sorted_wrt (\<lambda>a b. endx a < start b)
              (DetectSpansThreshold_loop row lo hi key (i + 1) i out)"
        using "1.IH"(1) [OF le refl a _ p2 p3 st "1.prems"(5)] "1.prems"(1) by simp
      then show ?thesis using le a by (simp add: simps)
    next
      case na: False
      show ?thesis
      proof (cases "\<not> ?R i \<and> spanStart \<ge> 0")
        case b: True
        then have run: "0 \<le> spanStart" "spanStart < i"
            "\<forall>j. spanStart \<le> j \<and> j < i \<longrightarrow> ?R j"
            "\<not> (0 < spanStart \<and> ?R (spanStart - 1))"
          using "1.prems"(2) by auto
        have m: "?M spanStart i"
          unfolding maximal_run_def using run b le by simp
        let ?out1 = "out @ [\<lparr>start = spanStart, endx = i\<rparr>]"
        have st: "set ?out1 = {sp. ?M (start sp) (endx sp) \<and> endx sp < i + 1}"
          by (simp only: runs_step_push [OF m] set_append list.set "1.prems"(4)) simp
        have before: "\<forall>sp\<in>set out. endx sp < spanStart"
        proof
          fix sp assume "sp \<in> set out"
          then have ms: "?M (start sp) (endx sp)" and l: "endx sp < i"
            using "1.prems"(4) by auto
          have "\<not> ?R (endx sp)" using ms unfolding maximal_run_def by blast
          then have "\<not> (spanStart \<le> endx sp \<and> endx sp < i)" using run(3) by blast
          then show "endx sp < spanStart" using l by simp
        qed
        have so: "sorted_wrt (\<lambda>a b. endx a < start b) ?out1"
          using "1.prems"(5) before by (simp add: sorted_wrt_append)
        have p3: "(- 1 :: int) < 0 \<longrightarrow> i + 1 = 0 \<or> \<not> ?R (i + 1 - 1)" using b by simp
        have "set (DetectSpansThreshold_loop row lo hi key (i + 1) (- 1) ?out1) =
                {sp. ?M (start sp) (endx sp)} \<and>
              sorted_wrt (\<lambda>a b. endx a < start b)
                (DetectSpansThreshold_loop row lo hi key (i + 1) (- 1) ?out1)"
          using "1.IH"(2) [OF le refl na b _ _ p3 st so] "1.prems"(1) by simp
        then show ?thesis using le na b by (simp add: simps)
      next
        case nb: False
        have no: "\<And>s. \<not> ?M s i"
        proof
          fix s assume ms: "?M s i"
          then have ni: "\<not> ?R i" and si: "0 \<le> s" "s < i" and
              all: "\<forall>j. s \<le> j \<and> j < i \<longrightarrow> ?R j"
            unfolding maximal_run_def by auto
          from ni nb have neg: "spanStart < 0" by simp
          have "?R (i - 1)" using all si by simp
          moreover have "i \<noteq> 0" using si by simp
          ultimately show False using "1.prems"(3) neg by simp
        qed
        have st: "set out = {sp. ?M (start sp) (endx sp) \<and> endx sp < i + 1}"
          by (simp only: runs_step_none [of row lo hi key i, OF no] "1.prems"(4))
        have p2: "spanStart < 0 \<or>
           (0 \<le> spanStart \<and> spanStart < i + 1 \<and>
            (\<forall>j. spanStart \<le> j \<and> j < i + 1 \<longrightarrow> ?R j) \<and>
            \<not> (0 < spanStart \<and> ?R (spanStart - 1)))"
        proof (cases "spanStart < 0")
          case True
          then show ?thesis by simp
        next
          case False
          then have ri: "?R i" using nb by simp
          have old: "0 \<le> spanStart" "spanStart < i"
            "\<forall>j. spanStart \<le> j \<and> j < i \<longrightarrow> ?R j"
            "\<not> (0 < spanStart \<and> ?R (spanStart - 1))"
            using "1.prems"(2) False by auto
          have "\<forall>j. spanStart \<le> j \<and> j < i + 1 \<longrightarrow> ?R j"
          proof (intro allI impI)
            fix j assume j: "spanStart \<le> j \<and> j < i + 1"
            show "?R j"
            proof (cases "j = i")
              case True
              then show ?thesis using ri by simp
            next
              case False
              then show ?thesis using j old(3) by simp
            qed
          qed
          then show ?thesis using old by simp
        qed
        have p3: "spanStart < 0 \<longrightarrow> i + 1 = 0 \<or> \<not> ?R (i + 1 - 1)"
          using na nb by auto
        have "set (DetectSpansThreshold_loop row lo hi key (i + 1) spanStart out) =
                {sp. ?M (start sp) (endx sp)} \<and>
              sorted_wrt (\<lambda>a b. endx a < start b)
                (DetectSpansThreshold_loop row lo hi key (i + 1) spanStart out)"
          using "1.IH"(3) [OF le refl na nb _ p2 p3 st "1.prems"(5)] "1.prems"(1) by simp
        then show ?thesis using le na nb by (auto simp add: simps Let_def)
      qed
    qed
  qed
qed

lemma DetectSpansThreshold_runs:
  "set (DetectSpansThreshold row lo hi key) =
     {sp. maximal_run row lo hi key (start sp) (endx sp)} \<and>
   sorted_wrt (\<lambda>a b. endx a < start b) (DetectSpansThreshold row lo hi key)"
proof (cases "row = []")
  case True
  have "{sp. maximal_run row lo hi key (start sp) (endx sp)} = {}"
    using True unfolding maximal_run_def by auto
  then show ?thesis by (simp add: DetectSpansThreshold_def True)
next
  case False
  have e: "set [] = {sp. maximal_run row lo hi key (start sp) (endx sp) \<and> endx sp < 0}"
    unfolding maximal_run_def by auto
  show ?thesis
    using False threshold_loop_runs [of 0 "- 1" row lo hi key "[]", OF _ _ _ e]
    by (simp add: DetectSpansThreshold_def)
qed

lemma maximal_run_spec:
  "maximal_run row lo hi key s e =
   maximal_run_of (in_range row lo hi key) (int (length row)) s e"
proof -
  have i: "inRange_at row lo hi key i = in_range row lo hi key i" if "0 \<le> i" for i
    using that by (simp add: inRange_at_def in_range_def Let_def)
  have o: "\<not> inRange_at row lo hi key i" if "int (length row) \<le> i" for i
    using that by (simp add: inRange_at_def)
  show ?thesis
  proof
    assume r: "maximal_run row lo hi key s e"
    then have b: "0 \<le> s" "s < e" "e \<le> int (length row)" by (simp_all add: maximal_run_def)
    have "in_range row lo hi key j" if "s \<le> j \<and> j < e" for j
    proof -
      have "inRange_at row lo hi key j" using r that by (simp add: maximal_run_def)
      then show ?thesis using i [of j] b that by simp
    qed
    moreover have "\<not> in_range row lo hi key (s - 1)" if "0 < s"
      using r that i [of "s - 1"] by (simp add: maximal_run_def)
    moreover have "\<not> in_range row lo hi key e"
      using r i [of e] b by (simp add: maximal_run_def)
    ultimately show "maximal_run_of (in_range row lo hi key) (int (length row)) s e"
      using b by (simp add: maximal_run_of_def)
  next
    assume r: "maximal_run_of (in_range row lo hi key) (int (length row)) s e"
    then have b: "0 \<le> s" "s < e" "e \<le> int (length row)" by (simp_all add: maximal_run_of_def)
    have "inRange_at row lo hi key j" if "s \<le> j \<and> j < e" for j
    proof -
      have "in_range row lo hi key j" using r that by (simp add: maximal_run_of_def)
      then show ?thesis using i [of j] b that by simp
    qed
    moreover have "\<not> inRange_at row lo hi key (s - 1)" if "0 < s"
      using r that i [of "s - 1"] by (simp add: maximal_run_of_def)
    moreover have "\<not> inRange_at row lo hi key e"
    proof (cases "e < int (length row)")
      case True
      then show ?thesis using r i [of e] b by (simp add: maximal_run_of_def)
    next
      case False
      then show ?thesis using o [of e] by simp
    qed
    ultimately show "maximal_run row lo hi key s e"
      using b by (cases "0 < s") (simp_all add: maximal_run_def)
  qed
qed

text \<open>
  C3: the spans that \<open>DetectSpansThreshold\<close> returns are exactly the maximal runs of the
  positions in range, in ascending order with a gap between any two, a run that reaches
  the end of the line ending at the line length; in Threshold mode these are the spans
  detected before the length filters, the bounds being the two thresholds divided by 255.
  The normalized sort values are those that the program computes in \<^verbatim>\<open>float\<close>. In
  particular the line with the normalized values 0.1, 0.5, 0.5, 0.9, 0.2 (the saturations
  of the five pixels below) with the bounds 0.3 and 0.6 has exactly the span \<open>[1,3)\<close>.
\<close>

theorem threshold_spans_are_maximal_runs:
  "(\<forall>sp. sp \<in> set (DetectSpansThreshold row lowerNorm upperNorm key) \<longleftrightarrow>
         maximal_run_of (in_range row lowerNorm upperNorm key) (int (length row))
           (start sp) (endx sp)) \<and>
   sorted_wrt (\<lambda>a b. endx a < start b) (DetectSpansThreshold row lowerNorm upperNorm key) \<and>
   (intervalMode params = kIntervalModeThreshold \<longrightarrow>
      fst (DetectSpans_switch gen row params rowIndex rng) =
        DetectSpansThreshold row (norm_threshold (lowerThreshold params))
          (norm_threshold (upperThreshold params)) (sortKey params)) \<and>
   map (\<lambda>p. GetSortValueNorm p kSortKeySaturation)
     [(10, 9, 9), (10, 5, 5), (10, 5, 5), (10, 1, 1), (10, 8, 8)] =
     [f32 0.1, 0.5, 0.5, f32 0.9, f32 0.2] \<and>
   DetectSpansThreshold [(10, 9, 9), (10, 5, 5), (10, 5, 5), (10, 1, 1), (10, 8, 8)]
     (f32 0.3) (f32 0.6) kSortKeySaturation = [\<lparr>start = 1, endx = 3\<rparr>]"
proof (intro conjI impI)
  show "\<forall>sp. sp \<in> set (DetectSpansThreshold row lowerNorm upperNorm key) \<longleftrightarrow>
         maximal_run_of (in_range row lowerNorm upperNorm key) (int (length row))
           (start sp) (endx sp)"
    using DetectSpansThreshold_runs [of row lowerNorm upperNorm key]
    by (simp add: maximal_run_spec)
  show "sorted_wrt (\<lambda>a b. endx a < start b) (DetectSpansThreshold row lowerNorm upperNorm key)"
    using DetectSpansThreshold_runs by blast
next
  assume "intervalMode params = kIntervalModeThreshold"
  then show "fst (DetectSpans_switch gen row params rowIndex rng) =
        DetectSpansThreshold row (norm_threshold (lowerThreshold params))
          (norm_threshold (upperThreshold params)) (sortKey params)"
    by (simp add: DetectSpans_switch_def norm_threshold_def)
next
  show "map (\<lambda>p. GetSortValueNorm p kSortKeySaturation)
     [(10, 9, 9), (10, 5, 5), (10, 5, 5), (10, 1, 1), (10, 8, 8)] =
     [f32 0.1, 0.5, 0.5, f32 0.9, f32 0.2]"
    by (simp add: key_eval f32_ex)
next
  show "DetectSpansThreshold [(10, 9, 9), (10, 5, 5), (10, 5, 5), (10, 1, 1), (10, 8, 8)]
     (f32 0.3) (f32 0.6) kSortKeySaturation = [\<lparr>start = 1, endx = 3\<rparr>]"
    by (simp add: detect_eval key_eval f32_ex)
qed

text \<open>
  The witness is a line at the default thresholds 64 and 204 whose first and last pixel
  have the brightness \<open>204 + 2\<^sup>-\<^sup>1\<^sup>6\<close> and \<open>64 - 2\<^sup>-\<^sup>1\<^sup>8\<close> in \<^verbatim>\<open>float\<close>, where the exact sums
  are 204 and 64: both are out of range.
\<close>

theorem threshold_spans_are_maximal_runs_witness:
  "intervalMode MakeDefaultParams = kIntervalModeThreshold \<and>
   GetBrightness (129, 249, 169) = 13369345 / 65536 \<and>
   GetBrightness (101, 57, 3) = 16777215 / 262144 \<and>
   fst (DetectSpans_switch counter_gen [(129, 249, 169), (100, 100, 100), (101, 57, 3)]
          MakeDefaultParams 0 0) = [\<lparr>start = 1, endx = 2\<rparr>] \<and>
   maximal_run_of
     (in_range [(129, 249, 169), (100, 100, 100), (101, 57, 3)]
        (norm_threshold 64) (norm_threshold 204) kSortKeyBrightness) 3 1 2"
proof -
  let ?row = "[(129, 249, 169), (100, 100, 100), (101, 57, 3)] :: rgb list"
  have m: "intervalMode MakeDefaultParams = kIntervalModeThreshold"
    by (simp add: MakeDefaultParams_def)
  have b1: "GetBrightness (129, 249, 169) = 13369345 / 65536"
    by (simp add: key_eval f32_c3)
  have b2: "GetBrightness (101, 57, 3) = 16777215 / 262144"
    by (simp add: key_eval f32_c3)
  have e: "fst (DetectSpans_switch counter_gen ?row MakeDefaultParams 0 0) =
      [\<lparr>start = 1, endx = 2\<rparr>]"
    by (simp add: detect_eval key_eval f32_c3)
  have sw: "fst (DetectSpans_switch counter_gen ?row MakeDefaultParams 0 0) =
      DetectSpansThreshold ?row (norm_threshold 64) (norm_threshold 204) kSortKeyBrightness"
    using threshold_spans_are_maximal_runs
      [of ?row 0 0 kSortKeyBrightness MakeDefaultParams counter_gen 0 0,
       THEN conjunct2, THEN conjunct2, THEN conjunct1] m
    by (simp add: MakeDefaultParams_def)
  have "\<lparr>start = 1, endx = 2\<rparr> \<in> set (DetectSpansThreshold ?row (norm_threshold 64)
          (norm_threshold 204) kSortKeyBrightness)"
    using e sw by simp
  then have "maximal_run_of (in_range ?row (norm_threshold 64) (norm_threshold 204)
        kSortKeyBrightness) (int (length ?row))
        (start \<lparr>start = 1, endx = 2\<rparr>) (endx \<lparr>start = 1, endx = 2\<rparr>)"
    using threshold_spans_are_maximal_runs
      [of ?row "norm_threshold 64" "norm_threshold 204" kSortKeyBrightness
          MakeDefaultParams counter_gen 0 0, THEN conjunct1]
    by blast
  then have r: "maximal_run_of (in_range ?row (norm_threshold 64) (norm_threshold 204)
        kSortKeyBrightness) 3 1 2"
    by simp
  show ?thesis
    by (rule conjI [OF m conjI [OF b1 conjI [OF b2 conjI [OF e r]]]])
qed

section \<open>The post-filter of DetectSpans\<close>

text \<open>The compaction loop keeps, in order, the spans that are long enough.\<close>

lemma spanMin_loop_filter:
  "0 \<le> w \<Longrightarrow> w \<le> i \<Longrightarrow> i \<le> int (length out) \<Longrightarrow>
   (case spanMin_loop smin out i w of (out', w') \<Rightarrow> take (nat w') out') =
     take (nat w) out @ filter (\<lambda>sp. endx sp - start sp \<ge> smin) (drop (nat i) out)"
proof (induction smin out i w rule: spanMin_loop.induct)
  case (1 smin out i w)
  show ?case
  proof (cases "i < int (length out)")
    case False
    with "1.prems" show ?thesis
      by (subst spanMin_loop.simps) simp
  next
    case True
    then have ni: "nat i < length out" using "1.prems" by simp
    have d: "drop (nat i) out = out ! nat i # drop (nat (i + 1)) out"
      using ni "1.prems" by (simp add: Cons_nth_drop_Suc nat_add_distrib)
    show ?thesis
    proof (cases "endx (out ! nat i) - start (out ! nat i) \<ge> smin")
      case keep: True
      let ?out1 = "out[nat w := out ! nat i]"
      have wl: "nat w < length out" using ni "1.prems" by simp
      have t: "take (nat (w + 1)) ?out1 = take (nat w) out @ [out ! nat i]"
        using wl "1.prems" by (simp add: nat_add_distrib take_Suc_conv_app_nth)
      have dd: "drop (nat (i + 1)) ?out1 = drop (nat (i + 1)) out"
        using "1.prems" by (simp add: nat_add_distrib)
      have "(case spanMin_loop smin ?out1 (i + 1) (w + 1) of (out', w') \<Rightarrow> take (nat w') out') =
            take (nat (w + 1)) ?out1 @
            filter (\<lambda>sp. endx sp - start sp \<ge> smin) (drop (nat (i + 1)) ?out1)"
        using "1.IH"(1) [OF True keep] "1.prems" True by simp
      then show ?thesis
        using True keep by (simp add: spanMin_loop.simps [of smin out i w] t dd d)
    next
      case drop': False
      have "(case spanMin_loop smin out (i + 1) w of (out', w') \<Rightarrow> take (nat w') out') =
            take (nat w) out @
            filter (\<lambda>sp. endx sp - start sp \<ge> smin) (drop (nat (i + 1)) out)"
        using "1.IH"(2) [OF True drop'] "1.prems" True by simp
      then show ?thesis
        using True drop' by (simp add: spanMin_loop.simps [of smin out i w] d)
    qed
  qed
qed

lemma filter_spanMin_eq:
  "filter_spanMin smin out = filter (\<lambda>sp. endx sp - start sp \<ge> smin) out"
  using spanMin_loop_filter [of 0 0 out smin] by (simp add: filter_spanMin_def)

lemma upto_shift: "[i + 1 .. j + 1] = map (\<lambda>k. k + 1) [i .. j]"
proof (induction i j rule: upto.induct)
  case (1 i j)
  show ?case
  proof (cases "i \<le> j")
    case True
    then show ?thesis using 1 by (simp add: upto_rec1 [of i j] upto_rec1 [of "i + 1" "j + 1"])
  next
    case False
    then show ?thesis by simp
  qed
qed

lemma sub_spans_empty: "endx sp \<le> start sp \<Longrightarrow> 0 < m \<Longrightarrow> sub_spans m sp = []"
proof -
  assume a: "endx sp \<le> start sp" "0 < m"
  then have "(endx sp - start sp - 1) div m < 0"
    by (intro div_neg_pos_less0) simp_all
  then show ?thesis by (simp add: sub_spans_def)
qed

lemma sub_spans_step:
  assumes "s < e" "0 < m"
  shows "sub_spans m \<lparr>start = s, endx = e\<rparr> =
         \<lparr>start = s, endx = min (s + m) e\<rparr> # sub_spans m \<lparr>start = min (s + m) e, endx = e\<rparr>"
proof (cases "s + m < e")
  case True
  have q: "(e - s - 1) div m = (e - (s + m) - 1) div m + 1"
  proof -
    have "e - s - 1 = (e - (s + m) - 1) + m" by simp
    then have "(e - s - 1) div m = ((e - (s + m) - 1) + m) div m" by (rule arg_cong)
    also have "\<dots> = (e - (s + m) - 1) div m + 1"
      using assms(2) by (intro div_add_self2) simp
    finally show ?thesis .
  qed
  have nn: "0 \<le> (e - (s + m) - 1) div m"
    using True assms(2) by (simp add: pos_imp_zdiv_nonneg_iff)
  have "[0 .. (e - s - 1) div m] = 0 # [0 + 1 .. (e - (s + m) - 1) div m + 1]"
    using nn q by (simp add: upto_rec1)
  also have "\<dots> = 0 # map (\<lambda>k. k + 1) [0 .. (e - (s + m) - 1) div m]"
    by (simp only: upto_shift)
  finally have u: "[0 .. (e - s - 1) div m] = 0 # map (\<lambda>k. k + 1) [0 .. (e - (s + m) - 1) div m]" .
  let ?f = "\<lambda>k. \<lparr>start = s + k * m, endx = min (s + (k + 1) * m) e\<rparr>"
  let ?g = "\<lambda>k. \<lparr>start = (s + m) + k * m, endx = min ((s + m) + (k + 1) * m) e\<rparr>"
  have fg: "?f \<circ> (\<lambda>k. k + 1) = ?g" by (rule ext) (simp add: algebra_simps)
  have "sub_spans m \<lparr>start = s, endx = e\<rparr> = map ?f [0 .. (e - s - 1) div m]"
    by (simp add: sub_spans_def)
  also have "\<dots> = ?f 0 # map (?f \<circ> (\<lambda>k. k + 1)) [0 .. (e - (s + m) - 1) div m]"
    by (simp only: u list.map map_map)
  also have "\<dots> = ?f 0 # map ?g [0 .. (e - (s + m) - 1) div m]"
    by (simp only: fg)
  also have "map ?g [0 .. (e - (s + m) - 1) div m] = sub_spans m \<lparr>start = s + m, endx = e\<rparr>"
    by (simp add: sub_spans_def)
  finally show ?thesis using True by (simp add: min_def)
next
  case False
  then have "(e - s - 1) div m = 0" using assms by (simp add: div_pos_pos_trivial)
  moreover have "sub_spans m \<lparr>start = min (s + m) e, endx = e\<rparr> = []"
    using False assms by (intro sub_spans_empty) simp_all
  ultimately show ?thesis using False by (simp add: sub_spans_def)
qed

lemma spanMax_loop_sub_spans:
  "0 < m \<Longrightarrow> spanMax_loop m s e capped = capped @ sub_spans m \<lparr>start = s, endx = e\<rparr>"
proof (induction m s e capped rule: spanMax_loop.induct)
  case (1 smax s e capped)
  show ?case
  proof (cases "s < e")
    case True
    then show ?thesis
      using "1.IH" [OF _ refl] "1.prems"
      by (simp add: spanMax_loop.simps [of smax s e capped] sub_spans_step [OF True "1.prems"] Let_def)
  next
    case False
    then show ?thesis
      using "1.prems" by (simp add: spanMax_loop.simps [of smax s e capped] sub_spans_empty)
  qed
qed

lemma span_eta: "\<lparr>start = start sp, endx = endx sp\<rparr> = (sp :: Span)"
  by (cases sp) simp

lemma cap_spanMax_foldl:
  "0 < m \<Longrightarrow> foldl (\<lambda>capped sp. spanMax_loop m (start sp) (endx sp) capped) acc spans =
     acc @ concat (map (sub_spans m) spans)"
proof (induction spans arbitrary: acc)
  case Nil
  then show ?case by simp
next
  case (Cons sp spans)
  show ?case using Cons by (simp add: spanMax_loop_sub_spans span_eta)
qed

lemma cap_spanMax_eq: "0 < m \<Longrightarrow> cap_spanMax m spans = concat (map (sub_spans m) spans)"
  by (simp add: cap_spanMax_def cap_spanMax_foldl)

lemma post_filter_eq_spec:
  assumes "1 \<le> spanMin params" and "\<forall>sp\<in>set spans. start sp < endx sp"
  shows "post_filter params spans = post_filter_spec params spans"
proof -
  have f: "(if spanMin params > 1 then filter_spanMin (spanMin params) spans else spans) =
           filter (\<lambda>sp. \<not> endx sp - start sp < spanMin params) spans"
  proof (cases "spanMin params > 1")
    case True
    then show ?thesis by (simp add: filter_spanMin_eq not_less)
  next
    case False
    with assms(1) have "spanMin params = 1" by simp
    then have "filter (\<lambda>sp. \<not> endx sp - start sp < spanMin params) spans = spans"
      using assms(2) by (auto simp add: filter_id_conv)
    then show ?thesis using False by simp
  qed
  show ?thesis
    unfolding post_filter_def post_filter_spec_def Let_def f
    by (simp add: cap_spanMax_eq)
qed

section \<open>The spans returned by DetectSpans\<close>

lemma spans_within_Nil: "spans_within lo hi []"
  by (simp add: spans_within_def spans_ascending_def)

lemma spans_within_snoc:
  "spans_within lo m spans \<Longrightarrow> lo \<le> m \<Longrightarrow> m \<le> s \<Longrightarrow> s < e \<Longrightarrow>
   spans_within lo e (spans @ [\<lparr>start = s, endx = e\<rparr>])"
  by (fastforce simp add: spans_within_def spans_ascending_def sorted_wrt_append)

lemma spans_within_mono:
  "spans_within lo m spans \<Longrightarrow> m \<le> hi \<Longrightarrow> spans_within lo hi spans"
  by (fastforce simp add: spans_within_def)

lemma spans_within_okI:
  "spans_within 0 n spans \<Longrightarrow> spans_ascending spans \<and> (\<forall>sp\<in>set spans. span_ok n sp)"
  by (simp add: spans_within_def span_ok_def)

lemma spans_within_from_ok:
  "spans_ascending spans \<Longrightarrow> \<forall>sp\<in>set spans. span_ok n sp \<Longrightarrow> spans_within 0 n spans"
  by (simp add: spans_within_def span_ok_def)

subsection \<open>Threshold\<close>

lemma DetectSpansThreshold_within:
  "spans_within 0 (int (length row)) (DetectSpansThreshold row lo hi key)"
proof -
  let ?L = "DetectSpansThreshold row lo hi key"
  have s: "set ?L = {sp. maximal_run row lo hi key (start sp) (endx sp)}"
    and o: "sorted_wrt (\<lambda>a b. endx a < start b) ?L"
    using DetectSpansThreshold_runs [of row lo hi key] by auto
  have "sorted_wrt (\<lambda>a b. endx a \<le> start b) ?L"
    by (rule sorted_wrt_mono_rel [OF _ o]) simp
  moreover have "\<forall>sp\<in>set ?L. 0 \<le> start sp \<and> start sp < endx sp \<and> endx sp \<le> int (length row)"
    unfolding s maximal_run_def by simp
  ultimately show ?thesis by (simp add: spans_within_def spans_ascending_def)
qed

subsection \<open>Random\<close>

lemma uniform_int_range:
  assumes "a \<le> b"
  shows "a \<le> fst (uniform_int gen a b rng) \<and> fst (uniform_int gen a b rng) \<le> b"
proof -
  define X where "X = int (fst (gen rng)) mod (b - a + 1)"
  have p: "0 < b - a + 1" using assms by simp
  have lo: "0 \<le> X" unfolding X_def by (rule pos_mod_sign [OF p])
  have up: "X < b - a + 1" unfolding X_def by (rule pos_mod_bound [OF p])
  have "fst (uniform_int gen a b rng) = a + X"
    by (simp add: uniform_int_def X_def split: prod.splits)
  then show ?thesis using lo up by linarith
qed

lemma random_loop_within:
  "0 \<le> i \<Longrightarrow> spans_within 0 (min i n) out \<Longrightarrow>
   spans_within 0 n (fst (DetectSpansRandom_loop gen n i rng out))"
proof (induction gen n i rng out rule: DetectSpansRandom_loop.induct)
  case (1 gen n i rng out)
  show ?case
  proof (cases "i < n")
    case False
    then show ?thesis using "1.prems"
      by (simp add: DetectSpansRandom_loop.simps [of gen n i rng out] spans_within_mono)
  next
    case True
    let ?maxLen = "max 11 (n div 4)"
    obtain len rng1 where l: "uniform_int gen 10 ?maxLen rng = (len, rng1)" by fastforce
    obtain gap rng2 where g: "uniform_int gen 1 20 rng1 = (gap, rng2)" by fastforce
    have len: "10 \<le> len" using uniform_int_range [of 10 ?maxLen gen rng] l by simp
    have gap: "1 \<le> gap" using uniform_int_range [of 1 20 gen rng1] g by simp
    let ?e = "min (i + len) n"
    have w: "spans_within 0 ?e (out @ [\<lparr>start = i, endx = ?e\<rparr>])"
    proof (rule spans_within_snoc)
      show "spans_within 0 i out" using "1.prems"(2) True by (simp add: min_def)
      show "0 \<le> i" by (rule "1.prems"(1))
      show "i \<le> i" by simp
      show "i < ?e" using True len by simp
    qed
    have w': "spans_within 0 (min (?e + gap) n) (out @ [\<lparr>start = i, endx = ?e\<rparr>])"
      by (rule spans_within_mono [OF w]) (use gap in simp)
    have "spans_within 0 n
            (fst (DetectSpansRandom_loop gen n (?e + gap) rng2 (out @ [\<lparr>start = i, endx = ?e\<rparr>])))"
      using "1.IH" [OF True refl l [symmetric] refl g [symmetric] _ w'] "1.prems"(1) len gap True
      by simp
    then show ?thesis
      using True l g by (simp add: DetectSpansRandom_loop.simps [of gen n i rng out] Let_def)
  qed
qed

lemma DetectSpansRandom_within: "spans_within 0 n (fst (DetectSpansRandom gen n rng))"
  using random_loop_within [of 0 n "[]" gen rng]
  by (simp add: DetectSpansRandom_def spans_within_Nil)

subsection \<open>Edges\<close>

lemma edges_loop_within:
  "0 \<le> prevPos \<Longrightarrow> prevPos \<le> i \<Longrightarrow> spans_within 0 prevPos out \<Longrightarrow>
   (case DetectSpansEdges_loop edges t i prevPos out of (p, out') \<Rightarrow>
      0 \<le> p \<and> p \<le> max i (int (length edges)) \<and> spans_within 0 p out')"
proof (induction edges t i prevPos out rule: DetectSpansEdges_loop.induct)
  case (1 edges t i prevPos out)
  note simps = DetectSpansEdges_loop.simps [of edges t i prevPos out]
  show ?case
  proof (cases "i < int (length edges)")
    case False
    then show ?thesis using "1.prems" by (simp add: simps)
  next
    case True
    show ?thesis
    proof (cases "edges ! nat i > t")
      case e: True
      let ?out1 = "if i + 1 > prevPos then out @ [\<lparr>start = prevPos, endx = i + 1\<rparr>] else out"
      have w: "spans_within 0 (i + 1) ?out1"
        using "1.prems" by (simp add: spans_within_snoc)
      have "case DetectSpansEdges_loop edges t (i + 1) (i + 1) ?out1 of (p, out') \<Rightarrow>
              0 \<le> p \<and> p \<le> max (i + 1) (int (length edges)) \<and> spans_within 0 p out'"
        using "1.IH"(1) [OF True e refl _ _ w] "1.prems" by simp
      then show ?thesis using True e by (simp add: simps Let_def max_def split: prod.splits if_splits)
    next
      case ne: False
      have "case DetectSpansEdges_loop edges t (i + 1) prevPos out of (p, out') \<Rightarrow>
              0 \<le> p \<and> p \<le> max (i + 1) (int (length edges)) \<and> spans_within 0 p out'"
        using "1.IH"(2) [OF True ne] "1.prems" by simp
      then show ?thesis using True ne by (simp add: simps max_def split: prod.splits if_splits)
    qed
  qed
qed

lemma DetectSpansEdges_within: "spans_within 0 (int (length row)) (DetectSpansEdges row)"
proof -
  let ?n = "int (length row)"
  consider "?n \<le> 0" | "?n = 1" | "1 < ?n" by linarith
  then show ?thesis
  proof cases
    case 1
    then show ?thesis by (simp add: DetectSpansEdges_def spans_within_Nil)
  next
    case 2
    have "spans_within 0 1 ([] @ [\<lparr>start = 0, endx = 1\<rparr>])"
      by (rule spans_within_snoc [where m = 0]) (simp_all add: spans_within_Nil)
    then show ?thesis using 2 by (simp add: DetectSpansEdges_def)
  next
    case 3
    let ?edges = "edge_values (map GetBrightnessNorm row)"
    let ?t = "edge_threshold ?edges"
    obtain p out where r: "DetectSpansEdges_loop ?edges ?t 0 0 [] = (p, out)" by fastforce
    have le: "int (length ?edges) = ?n - 1" using 3 by (simp add: edge_values_def)
    have inv: "0 \<le> p \<and> p \<le> max 0 (int (length ?edges)) \<and> spans_within 0 p out"
      using edges_loop_within [of 0 0 "[]" ?edges ?t] r by (simp add: spans_within_Nil)
    have "spans_within 0 ?n (if ?n > p then out @ [\<lparr>start = p, endx = ?n\<rparr>] else out)"
    proof (cases "?n > p")
      case True
      have "spans_within 0 ?n (out @ [\<lparr>start = p, endx = ?n\<rparr>])"
        using inv True by (intro spans_within_snoc [where m = p]) simp_all
      then show ?thesis using True by simp
    next
      case False
      then show ?thesis using inv le 3 by simp
    qed
    then show ?thesis using 3 r by (simp add: DetectSpansEdges_def Let_def spans_within_Nil)
  qed
qed

subsection \<open>Waves and None\<close>

lemma waves_loop_within:
  "0 \<le> i \<Longrightarrow> i \<le> n \<Longrightarrow> spans_within 0 i out \<Longrightarrow>
   spans_within 0 n (DetectSpansWaves_loop n w i ph out)"
proof (induction n w i ph out rule: DetectSpansWaves_loop.induct)
  case (1 n w i ph out)
  note simps = DetectSpansWaves_loop.simps [of n w i ph out]
  show ?case
  proof (cases "i < n")
    case False
    then show ?thesis using "1.prems" by (subst DetectSpansWaves_loop.simps) simp
  next
    case True
    let ?len = "max 2 (trunc (of_int w * (0.5 + 0.5 * sin ph)))"
    let ?e = "min (i + ?len) n"
    have ie: "i < ?e" using True by simp
    have w: "spans_within 0 ?e (out @ [\<lparr>start = i, endx = ?e\<rparr>])"
      using "1.prems" ie by (intro spans_within_snoc [where m = i]) simp_all
    have "spans_within 0 n (DetectSpansWaves_loop n w ?e (ph + 0.5) (out @ [\<lparr>start = i, endx = ?e\<rparr>]))"
      using "1.IH" [OF True refl refl refl _ _ w] "1.prems" ie by simp
    then show ?thesis using True by (simp add: simps Let_def)
  qed
qed

lemma DetectSpansWaves_within: "spans_within 0 n (DetectSpansWaves n rowIndex)"
proof (cases "n \<le> 0")
  case True
  then show ?thesis by (simp add: DetectSpansWaves_def spans_within_Nil)
next
  case False
  then show ?thesis
    using waves_loop_within [of 0 n "[]"]
    by (simp add: DetectSpansWaves_def spans_within_Nil Let_def)
qed

lemma DetectSpansNone_within: "spans_within 0 n (DetectSpansNone n)"
proof (cases "n \<le> 0")
  case True
  then show ?thesis by (simp add: DetectSpansNone_def spans_within_Nil)
next
  case False
  have "spans_within 0 n ([] @ [\<lparr>start = 0, endx = n\<rparr>])"
    using False by (intro spans_within_snoc [where m = 0]) (simp_all add: spans_within_Nil)
  then show ?thesis using False by (simp add: DetectSpansNone_def)
qed

lemma DetectSpans_switch_within:
  "spans_within 0 (int (length row)) (fst (DetectSpans_switch gen row params rowIndex rng))"
  by (cases "intervalMode params")
     (simp_all add: DetectSpans_switch_def DetectSpansThreshold_within DetectSpansRandom_within
        DetectSpansEdges_within DetectSpansWaves_within DetectSpansNone_within)

subsection \<open>The filters keep the invariant\<close>

lemma filter_within: "spans_within lo hi spans \<Longrightarrow> spans_within lo hi (filter P spans)"
  by (simp add: spans_within_def spans_ascending_def sorted_wrt_filter)

lemma spanMax_loop_within:
  "0 < m \<Longrightarrow> lo \<le> b \<Longrightarrow> b \<le> s \<Longrightarrow> spans_within lo b capped \<Longrightarrow>
   spans_within lo (max b e) (spanMax_loop m s e capped)"
proof (induction m s e capped arbitrary: b rule: spanMax_loop.induct)
  case (1 smax s e capped)
  note simps = spanMax_loop.simps [of smax s e capped]
  show ?case
  proof (cases "s < e")
    case False
    then show ?thesis using "1.prems" by (simp add: simps spans_within_mono)
  next
    case True
    let ?e' = "min (s + smax) e"
    have se: "s < ?e'" using True "1.prems"(1) by simp
    have w: "spans_within lo ?e' (capped @ [\<lparr>start = s, endx = ?e'\<rparr>])"
      using "1.prems" se by (intro spans_within_snoc [where m = b]) simp_all
    have "spans_within lo (max ?e' e) (spanMax_loop smax ?e' e (capped @ [\<lparr>start = s, endx = ?e'\<rparr>]))"
      using "1.IH" [OF _ refl "1.prems"(1) _ _ w] True "1.prems" se by simp
    moreover have "max ?e' e = max b e" using True "1.prems" by simp
    ultimately show ?thesis using True "1.prems"(1) by (simp add: simps Let_def)
  qed
qed

lemma cap_foldl_within:
  "0 < m \<Longrightarrow> lo \<le> b \<Longrightarrow> spans_within lo b acc \<Longrightarrow> spans_within b hi spans \<Longrightarrow> b \<le> hi \<Longrightarrow>
   spans_within lo hi
     (foldl (\<lambda>capped sp. spanMax_loop m (start sp) (endx sp) capped) acc spans)"
proof (induction spans arbitrary: acc b)
  case Nil
  then show ?case by (simp add: spans_within_mono)
next
  case (Cons sp spans)
  have sp: "b \<le> start sp" "start sp < endx sp" "endx sp \<le> hi"
    using Cons.prems(4) by (simp_all add: spans_within_def)
  have rest: "spans_within (endx sp) hi spans"
    using Cons.prems(4) sp
    by (fastforce simp add: spans_within_def spans_ascending_def)
  have "spans_within lo (max b (endx sp)) (spanMax_loop m (start sp) (endx sp) acc)"
    using spanMax_loop_within [OF Cons.prems(1) Cons.prems(2) sp(1) Cons.prems(3)] .
  moreover have "max b (endx sp) = endx sp" using sp by simp
  ultimately have a: "spans_within lo (endx sp) (spanMax_loop m (start sp) (endx sp) acc)" by simp
  have "lo \<le> endx sp" using Cons.prems(2) sp by simp
  from Cons.IH [OF Cons.prems(1) this a rest sp(3)] show ?case by simp
qed

lemma post_filter_within:
  assumes "0 \<le> hi" "spans_within 0 hi spans"
  shows "spans_within 0 hi (post_filter params spans)"
proof -
  let ?s1 = "if spanMin params > 1 then filter_spanMin (spanMin params) spans else spans"
  have 1: "spans_within 0 hi ?s1"
    using assms(2) by (simp add: filter_spanMin_eq filter_within)
  have 2: "spanMax params > 0 \<Longrightarrow> spans_within 0 hi (cap_spanMax (spanMax params) ?s1)"
    unfolding cap_spanMax_def
    by (rule cap_foldl_within [where b = 0]) (use 1 assms(1) in \<open>simp_all add: spans_within_Nil\<close>)
  show ?thesis using 1 2 by (simp add: post_filter_def Let_def)
qed

lemma DetectSpans_within:
  "spans_within 0 (int (length row)) (fst (DetectSpans gen row params rowIndex rng))"
proof -
  have "spans_within 0 (int (length row))
          (post_filter params (fst (DetectSpans_switch gen row params rowIndex rng)))"
    by (rule post_filter_within) (simp_all add: DetectSpans_switch_within)
  then show ?thesis
    by (cases "DetectSpans_switch gen row params rowIndex rng") (simp add: DetectSpans_def)
qed

text \<open>
  C4: with \<open>spanMin \<ge> 1\<close>, the post-filter first drops every span shorter than \<open>spanMin\<close>
  and then, when \<open>spanMax > 0\<close>, replaces each remaining span, one by one and in order,
  by its consecutive sub-spans of length \<open>spanMax\<close>, the last one cut at the end of the
  span: this holds on every list of non-empty spans, and so on every detected span list.
  In particular \<open>spanMin = 3\<close> on \<open>[0,2), [2,7)\<close> gives \<open>[2,7)\<close>, and \<open>spanMax = 2\<close> on
  \<open>[2,7)\<close> gives \<open>[2,4), [4,6), [6,7)\<close>.
\<close>

theorem post_filter_drops_then_splits:
  "(1 \<le> spanMin params \<and> (\<forall>sp\<in>set spans. start sp < endx sp) \<longrightarrow>
      post_filter params spans = post_filter_spec params spans) \<and>
   (1 \<le> spanMin params \<longrightarrow>
      fst (DetectSpans gen row params rowIndex rng) =
        post_filter_spec params (fst (DetectSpans_switch gen row params rowIndex rng))) \<and>
   post_filter (MakeDefaultParams\<lparr>spanMin := 3\<rparr>)
     [\<lparr>start = 0, endx = 2\<rparr>, \<lparr>start = 2, endx = 7\<rparr>] = [\<lparr>start = 2, endx = 7\<rparr>] \<and>
   post_filter (MakeDefaultParams\<lparr>spanMax := 2\<rparr>) [\<lparr>start = 2, endx = 7\<rparr>] =
     [\<lparr>start = 2, endx = 4\<rparr>, \<lparr>start = 4, endx = 6\<rparr>, \<lparr>start = 6, endx = 7\<rparr>]"
proof (intro conjI impI)
  assume "1 \<le> spanMin params \<and> (\<forall>sp\<in>set spans. start sp < endx sp)"
  then show "post_filter params spans = post_filter_spec params spans"
    by (simp add: post_filter_eq_spec)
next
  assume m: "1 \<le> spanMin params"
  have "\<forall>sp\<in>set (fst (DetectSpans_switch gen row params rowIndex rng)). start sp < endx sp"
    using DetectSpans_switch_within [of row gen params rowIndex rng]
    by (simp add: spans_within_def)
  then have "post_filter params (fst (DetectSpans_switch gen row params rowIndex rng)) =
             post_filter_spec params (fst (DetectSpans_switch gen row params rowIndex rng))"
    by (rule post_filter_eq_spec [OF m])
  then show "fst (DetectSpans gen row params rowIndex rng) =
        post_filter_spec params (fst (DetectSpans_switch gen row params rowIndex rng))"
    by (cases "DetectSpans_switch gen row params rowIndex rng") (simp add: DetectSpans_def)
next
  show "post_filter (MakeDefaultParams\<lparr>spanMin := 3\<rparr>)
     [\<lparr>start = 0, endx = 2\<rparr>, \<lparr>start = 2, endx = 7\<rparr>] = [\<lparr>start = 2, endx = 7\<rparr>]"
    by (simp add: detect_eval)
next
  show "post_filter (MakeDefaultParams\<lparr>spanMax := 2\<rparr>) [\<lparr>start = 2, endx = 7\<rparr>] =
     [\<lparr>start = 2, endx = 4\<rparr>, \<lparr>start = 4, endx = 6\<rparr>, \<lparr>start = 6, endx = 7\<rparr>]"
    by (simp add: detect_eval)
qed

theorem post_filter_drops_then_splits_witness:
  "1 \<le> spanMin (MakeDefaultParams\<lparr>spanMin := 3, spanMax := 2\<rparr>) \<and>
   list_all (\<lambda>sp. start sp < endx sp) [\<lparr>start = 0, endx = 2\<rparr>, \<lparr>start = 2, endx = 7\<rparr>] \<and>
   post_filter (MakeDefaultParams\<lparr>spanMin := 3, spanMax := 2\<rparr>)
     [\<lparr>start = 0, endx = 2\<rparr>, \<lparr>start = 2, endx = 7\<rparr>] =
   post_filter_spec (MakeDefaultParams\<lparr>spanMin := 3, spanMax := 2\<rparr>)
     [\<lparr>start = 0, endx = 2\<rparr>, \<lparr>start = 2, endx = 7\<rparr>] \<and>
   post_filter_spec (MakeDefaultParams\<lparr>spanMin := 3, spanMax := 2\<rparr>)
     [\<lparr>start = 0, endx = 2\<rparr>, \<lparr>start = 2, endx = 7\<rparr>] =
     [\<lparr>start = 2, endx = 4\<rparr>, \<lparr>start = 4, endx = 6\<rparr>, \<lparr>start = 6, endx = 7\<rparr>]"
proof -
  have h: "1 \<le> spanMin (MakeDefaultParams\<lparr>spanMin := 3, spanMax := 2\<rparr>) \<and>
           (\<forall>sp\<in>set [\<lparr>start = 0, endx = 2\<rparr>, \<lparr>start = 2, endx = 7\<rparr>]. start sp < endx sp)"
    by (simp add: MakeDefaultParams_def)
  have u: "[0 .. (2::int)] = [0, 1, 2]" by (simp add: upto_rec1)
  show ?thesis
    using h post_filter_drops_then_splits
      [of "MakeDefaultParams\<lparr>spanMin := 3, spanMax := 2\<rparr>"
          "[\<lparr>start = 0, endx = 2\<rparr>, \<lparr>start = 2, endx = 7\<rparr>]",
       THEN conjunct1]
    by (simp add: post_filter_spec_def sub_spans_def MakeDefaultParams_def u)
qed

text \<open>
  C9: for every line (of length \<open>n \<ge> 0\<close>), every parameter record, every line index
  and every generator state, each span returned by \<open>DetectSpans\<close> satisfies
  \<open>0 \<le> start < end \<le> n\<close>, and of two spans of the list the earlier one ends at or before
  the start of the later one: the spans are pairwise disjoint and listed in ascending
  order of start.
\<close>

theorem DetectSpans_spans_valid:
  "(\<forall>sp\<in>set (fst (DetectSpans gen row params rowIndex rng)).
      0 \<le> start sp \<and> start sp < endx sp \<and> endx sp \<le> int (length row)) \<and>
   (\<forall>i j. i < j \<and> j < length (fst (DetectSpans gen row params rowIndex rng)) \<longrightarrow>
      endx (fst (DetectSpans gen row params rowIndex rng) ! i)
        \<le> start (fst (DetectSpans gen row params rowIndex rng) ! j) \<and>
      start (fst (DetectSpans gen row params rowIndex rng) ! i)
        < start (fst (DetectSpans gen row params rowIndex rng) ! j))"
proof -
  let ?L = "fst (DetectSpans gen row params rowIndex rng)"
  have w: "spans_within 0 (int (length row)) ?L" by (rule DetectSpans_within)
  then have v: "\<forall>sp\<in>set ?L. 0 \<le> start sp \<and> start sp < endx sp \<and> endx sp \<le> int (length row)"
    by (simp add: spans_within_def)
  have so: "sorted_wrt (\<lambda>a b. endx a \<le> start b) ?L"
    using w by (simp add: spans_within_def spans_ascending_def)
  have "\<forall>i j. i < j \<and> j < length ?L \<longrightarrow>
          endx (?L ! i) \<le> start (?L ! j) \<and> start (?L ! i) < start (?L ! j)"
  proof (intro allI impI)
    fix i j assume ij: "i < j \<and> j < length ?L"
    then have e: "endx (?L ! i) \<le> start (?L ! j)"
      using so by (simp add: sorted_wrt_iff_nth_less)
    have "?L ! i \<in> set ?L" using ij by simp
    then have "start (?L ! i) < endx (?L ! i)" using v by blast
    then show "endx (?L ! i) \<le> start (?L ! j) \<and> start (?L ! i) < start (?L ! j)"
      using e by simp
  qed
  then show ?thesis using v by blast
qed

theorem DetectSpans_spans_valid_witness:
  "fst (DetectSpans counter_gen (replicate 5 (0, 0, 0))
          (MakeDefaultParams\<lparr>intervalMode := kIntervalModeNone, spanMax := 2\<rparr>) 0 0) =
     [\<lparr>start = 0, endx = 2\<rparr>, \<lparr>start = 2, endx = 4\<rparr>, \<lparr>start = 4, endx = 5\<rparr>] \<and>
   list_all (\<lambda>sp. 0 \<le> start sp \<and> start sp < endx sp \<and> endx sp \<le> 5)
     (fst (DetectSpans counter_gen (replicate 5 (0, 0, 0))
          (MakeDefaultParams\<lparr>intervalMode := kIntervalModeNone, spanMax := 2\<rparr>) 0 0))"
proof -
  have e: "fst (DetectSpans counter_gen (replicate 5 (0, 0, 0))
          (MakeDefaultParams\<lparr>intervalMode := kIntervalModeNone, spanMax := 2\<rparr>) 0 0) =
     [\<lparr>start = 0, endx = 2\<rparr>, \<lparr>start = 2, endx = 4\<rparr>, \<lparr>start = 4, endx = 5\<rparr>]"
    by (simp add: detect_eval)
  have "\<forall>sp\<in>set (fst (DetectSpans counter_gen (replicate 5 (0, 0, 0))
          (MakeDefaultParams\<lparr>intervalMode := kIntervalModeNone, spanMax := 2\<rparr>) 0 0)).
      0 \<le> start sp \<and> start sp < endx sp \<and> endx sp \<le> int (length (replicate 5 (0, 0, 0) :: rgb list))"
    using DetectSpans_spans_valid
      [of counter_gen "replicate 5 (0, 0, 0)"
          "MakeDefaultParams\<lparr>intervalMode := kIntervalModeNone, spanMax := 2\<rparr>" 0 0]
    by blast
  then have "list_all (\<lambda>sp. 0 \<le> start sp \<and> start sp < endx sp \<and> endx sp \<le> 5)
     (fst (DetectSpans counter_gen (replicate 5 (0, 0, 0))
          (MakeDefaultParams\<lparr>intervalMode := kIntervalModeNone, spanMax := 2\<rparr>) 0 0))"
    by (simp add: list_all_iff)
  then show ?thesis using e by simp
qed

section \<open>Wave spans\<close>

text \<open>A bound on \<open>sin 0.2\<close> from its Maclaurin polynomial, for line 2 of the examples.\<close>

lemma sin_one_fifth: "19 / 100 \<le> sin (1 / 5 :: real) \<and> sin (1 / 5 :: real) < 1 / 5"
proof -
  have s: "(\<Sum>m<5. sin_coeff m * (1 / 5 :: real) ^ m) = 149 / 750"
    by (simp add: lessThan_nat_numeral sin_coeff_def fact_numeral power_divide)
  have "\<bar>sin (1 / 5 :: real) - (\<Sum>m<5. sin_coeff m * (1 / 5) ^ m)\<bar>
          \<le> inverse (fact 5) * \<bar>1 / 5 :: real\<bar> ^ 5"
    by (rule Maclaurin_sin_bound)
  moreover have "inverse (fact 5) * \<bar>1 / 5 :: real\<bar> ^ 5 \<le> 1 / 10000"
    by (simp add: fact_numeral power_divide)
  ultimately have "\<bar>sin (1 / 5 :: real) - 149 / 750\<bar> \<le> 1 / 10000"
    unfolding s by linarith
  then show ?thesis by linarith
qed

lemma waves_loop_append:
  "\<exists>rest. DetectSpansWaves_loop n w i ph out = out @ rest"
proof (induction n w i ph out rule: DetectSpansWaves_loop.induct)
  case (1 n w i ph out)
  show ?case
  proof (cases "i < n")
    case False
    then show ?thesis by (subst DetectSpansWaves_loop.simps) simp
  next
    case True
    from "1.IH" [OF True refl refl refl] obtain rest where
      "DetectSpansWaves_loop n w (min (i + max 2 (trunc (of_int w * (0.5 + 0.5 * sin ph)))) n)
         (ph + 0.5)
         (out @ [\<lparr>start = i, endx = min (i + max 2 (trunc (of_int w * (0.5 + 0.5 * sin ph)))) n\<rparr>])
       = (out @ [\<lparr>start = i, endx = min (i + max 2 (trunc (of_int w * (0.5 + 0.5 * sin ph)))) n\<rparr>]) @ rest"
      by blast
    then show ?thesis using True
      by (subst DetectSpansWaves_loop.simps) (simp add: Let_def)
  qed
qed

lemma waves_first_span_80_2:
  "DetectSpansWaves 80 2 ! 0 = \<lparr>start = 0, endx = 5\<rparr>"
proof -
  have t: "trunc (10 * (0.5 + 0.5 * sin (1 / 5 :: real))) = 5"
  proof -
    have "0 \<le> 10 * (0.5 + 0.5 * sin (1 / 5 :: real))" using sin_one_fifth by simp
    moreover have "\<lfloor>10 * (0.5 + 0.5 * sin (1 / 5 :: real))\<rfloor> = 5"
      using sin_one_fifth by (intro floor_unique) simp_all
    ultimately show ?thesis by (simp add: trunc_def)
  qed
  obtain rest where
    "DetectSpansWaves_loop 80 10 5 (1 / 5 + 0.5) ([] @ [\<lparr>start = 0, endx = 5\<rparr>]) =
       ([] @ [\<lparr>start = 0, endx = 5\<rparr>]) @ rest"
    using waves_loop_append by blast
  then have "DetectSpansWaves_loop 80 10 0 (1 / 5) [] = \<lparr>start = 0, endx = 5\<rparr> # rest"
    using t by (subst DetectSpansWaves_loop.simps) (simp add: Let_def)
  then show ?thesis by (simp add: DetectSpansWaves_def)
qed

lemma wave_length_round_80_2: "wave_length_round 80 2 0 = 6"
proof -
  have "round (10 * (0.5 + 0.5 * sin (1 / 5 :: real))) = 6"
    using sin_one_fifth by (intro round_unique) simp_all
  then show ?thesis by (simp add: wave_length_round_def wave_phase_def)
qed

text \<open>The loop emits consecutive spans; the length of span \<open>k\<close> is computed at the phase
  \<open>ph0 + 0.5 * k\<close>.\<close>

lemma waves_loop_consecutive:
  assumes "0 < n" "i \<le> n"
    and "i = (if out = [] then 0 else endx (last out))"
    and "ph = ph0 + 0.5 * real (length out)"
    and "out \<noteq> [] \<longrightarrow> start (hd out) = 0"
    and "\<forall>k < length out.
           endx (out ! k) =
             min (start (out ! k) +
                  max 2 (trunc (of_int w * (0.5 + 0.5 * sin (ph0 + 0.5 * real k))))) n \<and>
           (Suc k < length out \<longrightarrow> start (out ! Suc k) = endx (out ! k))"
  shows "consecutive_spans
           (\<lambda>k. max 2 (trunc (of_int w * (0.5 + 0.5 * sin (ph0 + 0.5 * real k))))) n
           (DetectSpansWaves_loop n w i ph out)"
  using assms
proof (induction n w i ph out rule: DetectSpansWaves_loop.induct)
  case (1 n w i ph out)
  let ?len = "\<lambda>k. max 2 (trunc (of_int w * (0.5 + 0.5 * sin (ph0 + 0.5 * real k))))"
  show ?case
  proof (cases "i < n")
    case False
    then have in': "i = n" using "1.prems"(2) by simp
    have ne: "out \<noteq> []" using "1.prems"(1,3) in' by auto
    then have "endx (last out) = n" using "1.prems"(3) in' by simp
    then have "consecutive_spans ?len n out"
      unfolding consecutive_spans_def using ne "1.prems"(5,6) by simp
    then show ?thesis using False by (subst DetectSpansWaves_loop.simps) simp
  next
    case True
    let ?e = "min (i + max 2 (trunc (of_int w * (0.5 + 0.5 * sin ph)))) n"
    let ?out1 = "out @ [\<lparr>start = i, endx = ?e\<rparr>]"
    have phl: "max 2 (trunc (of_int w * (0.5 + 0.5 * sin ph))) = ?len (length out)"
      using "1.prems"(4) by simp
    have p2: "?e \<le> n" by simp
    have p3: "?e = (if ?out1 = [] then 0 else endx (last ?out1))" by simp
    have p4: "ph + 0.5 = ph0 + 0.5 * real (length ?out1)"
      using "1.prems"(4) by simp
    have p5: "?out1 \<noteq> [] \<longrightarrow> start (hd ?out1) = 0"
      using "1.prems"(3,5) by (cases out) simp_all
    have p6: "\<forall>k < length ?out1.
           endx (?out1 ! k) = min (start (?out1 ! k) + ?len k) n \<and>
           (Suc k < length ?out1 \<longrightarrow> start (?out1 ! Suc k) = endx (?out1 ! k))"
    proof (intro allI impI)
      fix k assume k: "k < length ?out1"
      show "endx (?out1 ! k) = min (start (?out1 ! k) + ?len k) n \<and>
           (Suc k < length ?out1 \<longrightarrow> start (?out1 ! Suc k) = endx (?out1 ! k))"
      proof (cases "k < length out")
        case kl: True
        have a: "endx (?out1 ! k) = min (start (?out1 ! k) + ?len k) n"
          using kl "1.prems"(6) by (simp add: nth_append)
        have b: "Suc k < length ?out1 \<longrightarrow> start (?out1 ! Suc k) = endx (?out1 ! k)"
        proof (cases "Suc k < length out")
          case True
          then show ?thesis using kl "1.prems"(6) by (simp add: nth_append)
        next
          case False
          then have sk: "Suc k = length out" using kl by simp
          then have "out \<noteq> []" by auto
          then have "i = endx (last out)" using "1.prems"(3) by simp
          also have "last out = out ! k"
            using sk [symmetric] \<open>out \<noteq> []\<close> by (simp add: last_conv_nth)
          finally show ?thesis using sk kl by (simp add: nth_append)
        qed
        show ?thesis using a b by blast
      next
        case False
        then have "k = length out" using k by simp
        then show ?thesis using phl by simp
      qed
    qed
    have "consecutive_spans ?len n
            (DetectSpansWaves_loop n w ?e (ph + 0.5) ?out1)"
      using "1.IH" [OF True refl refl refl "1.prems"(1) p2 p3 p4 p5 p6] .
    then show ?thesis using True
      by (subst DetectSpansWaves_loop.simps) (simp add: Let_def)
  qed
qed

lemma DetectSpansWaves_consecutive:
  assumes "0 < n"
  shows "consecutive_spans (wave_length_trunc n rowIndex) n (DetectSpansWaves n rowIndex)"
proof -
  have "consecutive_spans
           (\<lambda>k. max 2 (trunc (of_int (max 10 (n div 8)) *
                   (0.5 + 0.5 * sin (of_int rowIndex * 0.1 + 0.5 * real k))))) n
           (DetectSpansWaves_loop n (max 10 (n div 8)) 0 (of_int rowIndex * 0.1) [])"
    by (rule waves_loop_consecutive) (use assms in simp_all)
  moreover have "wave_length_trunc n rowIndex =
      (\<lambda>k. max 2 (trunc (of_int (max 10 (n div 8)) *
                   (0.5 + 0.5 * sin (of_int rowIndex * 0.1 + 0.5 * real k)))))"
    by (rule ext) (simp add: wave_length_trunc_def wave_phase_def)
  ultimately show ?thesis using assms by (simp add: DetectSpansWaves_def Let_def)
qed

text \<open>
  C6, as stated, fails: on a line of length 80 with line index 2 the first span is
  \<open>[0,5)\<close>, since \<open>10 * (0.5 + 0.5 * sin 0.2)\<close> is about 5.99 and the source truncates it,
  while the rounded length of the claim is 6.
\<close>

theorem waves_round_counterexample:
  "DetectSpansWaves 80 2 ! 0 = \<lparr>start = 0, endx = 5\<rparr> \<and>
   wave_length_round 80 2 0 = 6 \<and>
   \<not> consecutive_spans (wave_length_round 80 2) 80 (DetectSpansWaves 80 2)"
proof -
  have "\<not> consecutive_spans (wave_length_round 80 2) 80 (DetectSpansWaves 80 2)"
  proof
    assume c: "consecutive_spans (wave_length_round 80 2) 80 (DetectSpansWaves 80 2)"
    then have ne: "DetectSpansWaves 80 2 \<noteq> []" by (simp add: consecutive_spans_def)
    then have "0 < length (DetectSpansWaves 80 2)" by simp
    then have "endx (DetectSpansWaves 80 2 ! 0) =
          min (start (DetectSpansWaves 80 2 ! 0) + wave_length_round 80 2 0) 80"
      using c unfolding consecutive_spans_def by blast
    then show False by (simp add: waves_first_span_80_2 wave_length_round_80_2)
  qed
  then show ?thesis by (simp add: waves_first_span_80_2 wave_length_round_80_2)
qed

text \<open>
  C6, amended: for every line length \<open>n > 0\<close> and line index, Waves span detection emits
  consecutive spans starting at 0 and covering the line, span \<open>k\<close> of length
  \<open>max 2 (trunc (wavelength * (0.5 + 0.5 * sin phase)))\<close> (truncated toward zero, not
  rounded) clipped to the line end, where \<open>wavelength = max 10 (n div 8)\<close> and the phase
  is \<open>lineIndex * 0.1 + 0.5 * k\<close>; the generator is returned as it was passed.
\<close>

theorem waves_spans_truncated:
  "(0 < n \<longrightarrow>
      consecutive_spans (wave_length_trunc n lineIndex) n (DetectSpansWaves n lineIndex)) \<and>
   (intervalMode params = kIntervalModeWaves \<longrightarrow>
      DetectSpans_switch gen row params lineIndex rng =
        (DetectSpansWaves (int (length row)) lineIndex, rng))"
  by (simp add: DetectSpansWaves_consecutive DetectSpans_switch_def)

theorem waves_spans_truncated_witness:
  "(0 :: int) < 80 \<and>
   consecutive_spans (wave_length_trunc 80 2) 80 (DetectSpansWaves 80 2) \<and>
   intervalMode (MakeDefaultParams\<lparr>intervalMode := kIntervalModeWaves\<rparr>) = kIntervalModeWaves \<and>
   DetectSpans_switch counter_gen (replicate 80 (0, 0, 0))
     (MakeDefaultParams\<lparr>intervalMode := kIntervalModeWaves\<rparr>) 2 7 =
     (DetectSpansWaves 80 2, 7)"
  using waves_spans_truncated
    [of 80 2 "MakeDefaultParams\<lparr>intervalMode := kIntervalModeWaves\<rparr>" counter_gen
        "replicate 80 (0, 0, 0)" 7]
  by (simp add: MakeDefaultParams_def)

section \<open>Collecting the pixels of a span\<close>

lemma collect_loop_eq:
  "collect_loop row key sel s len i pw inc =
     (pw @ map (pixel_data row key)
             (filter (\<lambda>p. \<not> mask_zero sel p) [s + i .. min (s + len) (int (length row)) - 1]),
      inc @ map (\<lambda>p. p - s)
             (filter (\<lambda>p. \<not> mask_zero sel p) [s + i .. min (s + len) (int (length row)) - 1]))"
proof (induction row key sel s len i pw inc rule: collect_loop.induct)
  case (1 row key sel s len i pw inc)
  let ?n = "int (length row)"
  let ?hi = "min (s + len) ?n - 1"
  show ?case
  proof (cases "i < len \<and> s + i < ?n")
    case False
    then have "[s + i .. ?hi] = []" by auto
    then show ?thesis using False
      by (subst collect_loop.simps) (auto simp add: Let_def)
  next
    case True
    then have u: "[s + i .. ?hi] = (s + i) # [s + (i + 1) .. ?hi]"
      by (simp add: upto_rec1 add.assoc)
    show ?thesis
    proof (cases "mask_zero sel (s + i)")
      case z: True
      then show ?thesis using True "1.IH"(1) [OF _ refl _ z]
        by (subst collect_loop.simps) (simp add: Let_def u)
    next
      case nz: False
      then show ?thesis using True "1.IH"(2) [OF _ refl _ nz refl refl]
        by (subst collect_loop.simps) (simp add: Let_def u pixel_data_def)
    qed
  qed
qed

lemma collect_qualifying:
  "collect_loop row key sel (start sp) (endx sp - start sp) 0 [] [] =
     (map (pixel_data row key) (qualifying (length row) sel sp),
      map (\<lambda>p. p - start sp) (qualifying (length row) sel sp))"
  by (simp add: collect_loop_eq qualifying_def)

lemma qualifying_props:
  assumes "0 \<le> start sp"
  shows "distinct (qualifying n sel sp)"
    and "\<forall>q\<in>set (qualifying n sel sp). 0 \<le> q \<and> q < int n \<and> in_span q sp \<and> \<not> mask_zero sel q"
    and "sorted (qualifying n sel sp)"
  using assms by (auto simp add: qualifying_def in_span_def sorted_wrt_filter)

section \<open>The sort contract\<close>

lemma contract_mset: "std_sort_contract srt \<Longrightarrow> mset (srt sortValue_less xs) = mset xs"
  by (simp add: std_sort_contract_def)

lemma contract_length: "std_sort_contract srt \<Longrightarrow> length (srt sortValue_less xs) = length xs"
  using contract_mset [of srt xs] by (metis size_mset)

lemma contract_sorted:
  "std_sort_contract srt \<Longrightarrow> sorted (map sortValue (srt sortValue_less xs))"
proof -
  assume "std_sort_contract srt"
  then have "sorted_wrt (\<lambda>a b. \<not> sortValue_less b a) (srt sortValue_less xs)"
    by (simp add: std_sort_contract_def)
  then have "sorted_wrt (\<lambda>a b. sortValue a \<le> sortValue b) (srt sortValue_less xs)"
    by (rule sorted_wrt_mono_rel [rotated]) (simp add: sortValue_less_def)
  then show ?thesis by (simp add: sorted_map)
qed

lemma sort_step_length: "std_sort_contract srt \<Longrightarrow> length (sort_step srt params xs) = length xs"
  by (simp add: sort_step_def contract_length Let_def)

lemma sort_step_mset: "std_sort_contract srt \<Longrightarrow> mset (sort_step srt params xs) = mset xs"
  by (simp add: sort_step_def contract_mset Let_def)

lemma jitter_loop_length:
  "length (fst (jitter_loop gen jit cnt i pw rng)) = length pw"
proof (induction gen jit cnt i pw rng rule: jitter_loop.induct)
  case (1 gen jit cnt i pw rng)
  show ?case
  proof (cases "i < cnt")
    case False
    then show ?thesis by (subst jitter_loop.simps) simp
  next
    case True
    obtain offset rng' where u: "uniform_int gen (- jit) jit rng = (offset, rng')" by fastforce
    show ?thesis using True u "1.IH" [OF True u [symmetric] refl]
      by (subst jitter_loop.simps) (simp add: Let_def swap_def)
  qed
qed

lemma arrange_length:
  "std_sort_contract srt \<Longrightarrow> length (fst (arrange gen srt params pw rng)) = length pw"
  by (simp add: arrange_def Let_def jitter_loop_length sort_step_length)

lemma arrange_no_jitter:
  "jitter params = 0 \<Longrightarrow> arrange gen srt params pw rng = (sort_step srt params pw, rng)"
  by (simp add: arrange_def Let_def)

section \<open>Writing back\<close>

lemma write_seq_Nil [simp]: "write_seq so [] pw row = row"
  by (simp add: write_seq_def)

lemma write_seq_Cons [simp]:
  "write_seq so (q # Q) (v # pw) row =
     write_seq so Q pw (row[nat q := written so row q (pix v)])"
  by (simp add: write_seq_def)

lemma write_seq_length: "length (write_seq so Q pw row) = length row"
proof -
  have "length (foldl (\<lambda>r qv. case qv of (q, v) \<Rightarrow> r[nat q := written so r q (pix v)]) row zs)
          = length row" for zs
    by (induction zs arbitrary: row) (auto split: prod.splits)
  then show ?thesis by (simp add: write_seq_def)
qed

lemma written_update_other:
  "nat q \<noteq> i \<Longrightarrow> written so (row[i := x]) q v = written so row q v"
  by (simp add: written_def split: option.splits)

lemma write_seq_other:
  "length Q = length pw \<Longrightarrow> \<forall>q\<in>set Q. 0 \<le> q \<Longrightarrow> int p \<notin> set Q \<Longrightarrow>
   write_seq so Q pw row ! p = row ! p"
proof (induction Q pw arbitrary: row rule: list_induct2)
  case Nil
  then show ?case by simp
next
  case (Cons q Q v pw)
  have "nat q \<noteq> p" using Cons.prems by auto
  then show ?case using Cons by simp
qed

lemma write_seq_nth:
  "length Q = length pw \<Longrightarrow> distinct Q \<Longrightarrow> \<forall>q\<in>set Q. 0 \<le> q \<and> q < int (length row) \<Longrightarrow>
   k < length Q \<Longrightarrow>
   write_seq so Q pw row ! nat (Q ! k) = written so row (Q ! k) (pix (pw ! k))"
proof (induction Q pw arbitrary: row k rule: list_induct2)
  case Nil
  then show ?case by simp
next
  case (Cons q Q v pw)
  let ?r1 = "row[nat q := written so row q (pix v)]"
  show ?case
  proof (cases k)
    case 0
    have "int (nat q) \<notin> set Q" using Cons.prems by simp
    moreover have "\<forall>q\<in>set Q. 0 \<le> q" using Cons.prems by simp
    ultimately have "write_seq so Q pw ?r1 ! nat q = ?r1 ! nat q"
      using Cons.hyps by (intro write_seq_other) simp_all
    moreover have "nat q < length row" using Cons.prems by auto
    ultimately show ?thesis using 0 by simp
  next
    case (Suc k')
    then have k': "k' < length Q" using Cons.prems by simp
    have ne: "nat (Q ! k') \<noteq> nat q"
    proof -
      have "Q ! k' \<in> set Q" using k' by simp
      then have "Q ! k' \<noteq> q" "0 \<le> Q ! k'" using Cons.prems by auto
      moreover have "0 \<le> q" using Cons.prems by simp
      ultimately show ?thesis by simp
    qed
    have "write_seq so Q pw ?r1 ! nat (Q ! k') = written so ?r1 (Q ! k') (pix (pw ! k'))"
      using Cons.prems k' by (intro Cons.IH) simp_all
    also have "\<dots> = written so row (Q ! k') (pix (pw ! k'))"
      by (rule written_update_other [OF ne])
    finally show ?thesis using Suc by simp
  qed
qed

text \<open>The two write-back loops are this pass.\<close>

lemma write_back_sel_seq:
  "0 \<le> i \<Longrightarrow> i \<le> cnt \<Longrightarrow> cnt = int (length Q) \<Longrightarrow> length pw = length Q \<Longrightarrow>
   write_back_sel sel s (map (\<lambda>p. p - s) Q) pw cnt i row =
     write_seq (Some sel) (drop (nat i) Q) (drop (nat i) pw) row"
proof (induction sel s "map (\<lambda>p. p - s) Q" pw cnt i row rule: write_back_sel.induct)
  case (1 sel s pw cnt i row)
  show ?case
  proof (cases "i < cnt")
    case False
    then show ?thesis using "1.prems" by (subst write_back_sel.simps) simp
  next
    case True
    then have ni: "nat i < length Q" using "1.prems" by simp
    have dq: "drop (nat i) Q = Q ! nat i # drop (nat (i + 1)) Q"
      using ni "1.prems" by (simp add: Cons_nth_drop_Suc nat_add_distrib)
    have dp: "drop (nat i) pw = pw ! nat i # drop (nat (i + 1)) pw"
      using ni "1.prems" by (simp add: Cons_nth_drop_Suc nat_add_distrib)
    have idx: "s + map (\<lambda>p. p - s) Q ! nat i = Q ! nat i" using ni by simp
    let ?q = "Q ! nat i"
    let ?v = "pix (pw ! nat i)"
    consider (full) "sel ! nat ?q = 255" | (part) "sel ! nat ?q \<noteq> 255" "sel ! nat ?q > 0"
      | (zero) "sel ! nat ?q \<noteq> 255" "\<not> sel ! nat ?q > 0" by blast
    then show ?thesis
    proof cases
      case full
      have "write_back_sel sel s (map (\<lambda>p. p - s) Q) pw cnt (i + 1) (row[nat ?q := ?v]) =
            write_seq (Some sel) (drop (nat (i + 1)) Q) (drop (nat (i + 1)) pw) (row[nat ?q := ?v])"
        using "1.hyps"(1) [OF True refl refl] full idx True "1.prems" by simp
      then show ?thesis using True full idx
        by (subst write_back_sel.simps) (simp add: Let_def dq dp written_def)
    next
      case part
      let ?f = "blend_pixel ?v (row ! nat ?q) (uint (sel ! nat ?q))"
      have "write_back_sel sel s (map (\<lambda>p. p - s) Q) pw cnt (i + 1) (row[nat ?q := ?f]) =
            write_seq (Some sel) (drop (nat (i + 1)) Q) (drop (nat (i + 1)) pw) (row[nat ?q := ?f])"
        using "1.hyps"(2) [OF True refl refl _ _ refl refl refl] part idx True "1.prems" by simp
      then show ?thesis using True part idx
        by (subst write_back_sel.simps) (simp add: Let_def dq dp written_def)
    next
      case zero
      have "write_back_sel sel s (map (\<lambda>p. p - s) Q) pw cnt (i + 1) row =
            write_seq (Some sel) (drop (nat (i + 1)) Q) (drop (nat (i + 1)) pw) row"
        using "1.hyps"(3) [OF True refl refl] zero idx True "1.prems" by simp
      then show ?thesis using True zero idx
        by (subst write_back_sel.simps) (simp add: Let_def dq dp written_def)
    qed
  qed
qed

lemma write_back_all_seq:
  "0 \<le> i \<Longrightarrow> i \<le> cnt \<Longrightarrow> cnt = int (length Q) \<Longrightarrow> length pw = length Q \<Longrightarrow>
   write_back_all s (map (\<lambda>p. p - s) Q) pw cnt i row =
     write_seq None (drop (nat i) Q) (drop (nat i) pw) row"
proof (induction s "map (\<lambda>p. p - s) Q" pw cnt i row rule: write_back_all.induct)
  case (1 s pw cnt i row)
  show ?case
  proof (cases "i < cnt")
    case False
    then show ?thesis using "1.prems" by (subst write_back_all.simps) simp
  next
    case True
    then have ni: "nat i < length Q" using "1.prems" by simp
    have dq: "drop (nat i) Q = Q ! nat i # drop (nat (i + 1)) Q"
      using ni "1.prems" by (simp add: Cons_nth_drop_Suc nat_add_distrib)
    have dp: "drop (nat i) pw = pw ! nat i # drop (nat (i + 1)) pw"
      using ni "1.prems" by (simp add: Cons_nth_drop_Suc nat_add_distrib)
    have idx: "s + map (\<lambda>p. p - s) Q ! nat i = Q ! nat i" using ni by simp
    let ?q = "Q ! nat i"
    let ?v = "pix (pw ! nat i)"
    have "write_back_all s (map (\<lambda>p. p - s) Q) pw cnt (i + 1) (row[nat ?q := ?v]) =
            write_seq None (drop (nat (i + 1)) Q) (drop (nat (i + 1)) pw) (row[nat ?q := ?v])"
      using "1.hyps" [OF True refl] idx True "1.prems" by simp
    then show ?thesis using True idx
      by (subst write_back_all.simps) (simp add: Let_def dq dp written_def)
  qed
qed

lemma write_back_seq:
  "length pw = length Q \<Longrightarrow>
   write_back so s (map (\<lambda>p. p - s) Q) pw row = write_seq so Q pw row"
  using write_back_sel_seq [of 0 "int (length pw)" Q pw _ s row]
        write_back_all_seq [of 0 "int (length pw)" Q pw s row]
  by (simp add: write_back_def Let_def split: option.splits)

section \<open>One span\<close>

lemma SortSpan_eq:
  "SortSpan gen srt params sel sp (row, rng) =
     (if endx sp - start sp < 2 then (row, rng)
      else if fst (falloff_draw gen params rng) then (row, snd (falloff_draw gen params rng))
      else if length (qualifying (length row) sel sp) < 2
      then (row, snd (falloff_draw gen params rng))
      else (write_back sel (start sp) (map (\<lambda>p. p - start sp) (qualifying (length row) sel sp))
              (fst (arrange gen srt params
                      (map (pixel_data row (sortKey params)) (qualifying (length row) sel sp))
                      (snd (falloff_draw gen params rng))))
              row,
            snd (arrange gen srt params
                   (map (pixel_data row (sortKey params)) (qualifying (length row) sel sp))
                   (snd (falloff_draw gen params rng)))))"
  by (simp add: SortSpan_def Let_def collect_qualifying split: prod.splits)

lemma qualifying_length_le: "int (length (qualifying n sel sp)) \<le> max 0 (endx sp - start sp)"
proof -
  have "length (qualifying n sel sp) \<le> length [start sp .. min (endx sp) (int n) - 1]"
    unfolding qualifying_def by (rule length_filter_le)
  then show ?thesis by simp
qed

lemma SortSpan_skip:
  "fst (falloff_draw gen params rng) \<or> length (qualifying (length row) sel sp) < 2 \<Longrightarrow>
   fst (SortSpan gen srt params sel sp (row, rng)) = row"
  by (auto simp add: SortSpan_eq)

lemma SortSpan_processed:
  assumes "std_sort_contract srt" "\<not> fst (falloff_draw gen params rng)"
    "2 \<le> length (qualifying (length row) sel sp)"
  shows "fst (SortSpan gen srt params sel sp (row, rng)) =
     write_seq sel (qualifying (length row) sel sp)
       (fst (arrange gen srt params
               (map (pixel_data row (sortKey params)) (qualifying (length row) sel sp))
               (snd (falloff_draw gen params rng)))) row"
proof -
  have "\<not> endx sp - start sp < 2"
    using qualifying_length_le [of "length row" sel sp] assms(3) by linarith
  then show ?thesis
    using assms by (simp add: SortSpan_eq write_back_seq arrange_length)
qed

lemma SortSpan_length:
  assumes "std_sort_contract srt"
  shows "length (fst (SortSpan gen srt params sel sp (row, rng))) = length row"
proof (cases "fst (falloff_draw gen params rng) \<or> length (qualifying (length row) sel sp) < 2")
  case True
  then show ?thesis by (simp add: SortSpan_skip)
next
  case False
  then show ?thesis using assms by (simp add: SortSpan_processed write_seq_length)
qed

lemma SortSpan_other:
  assumes "std_sort_contract srt" "0 \<le> start sp"
    "int p \<notin> set (qualifying (length row) sel sp)"
  shows "fst (SortSpan gen srt params sel sp (row, rng)) ! p = row ! p"
proof (cases "fst (falloff_draw gen params rng) \<or> length (qualifying (length row) sel sp) < 2")
  case True
  then show ?thesis by (simp add: SortSpan_skip)
next
  case False
  have "\<forall>q\<in>set (qualifying (length row) sel sp). 0 \<le> q"
    using qualifying_props(2) [OF assms(2)] by blast
  then show ?thesis
    using False assms by (simp add: SortSpan_processed write_seq_other arrange_length)
qed

lemma SortSpan_written:
  assumes "std_sort_contract srt" "0 \<le> start sp" "\<not> fst (falloff_draw gen params rng)"
    "2 \<le> length (qualifying (length row) sel sp)" "k < length (qualifying (length row) sel sp)"
  shows "fst (SortSpan gen srt params sel sp (row, rng)) ! nat (qualifying (length row) sel sp ! k) =
     written sel row (qualifying (length row) sel sp ! k)
       (pix (fst (arrange gen srt params
               (map (pixel_data row (sortKey params)) (qualifying (length row) sel sp))
               (snd (falloff_draw gen params rng))) ! k))"
proof -
  let ?Q = "qualifying (length row) sel sp"
  have d: "distinct ?Q" by (rule qualifying_props(1) [OF assms(2)])
  have r: "\<forall>q\<in>set ?Q. 0 \<le> q \<and> q < int (length row)"
    using qualifying_props(2) [OF assms(2)] by blast
  show ?thesis
    using assms d r by (simp add: SortSpan_processed write_seq_nth arrange_length)
qed

section \<open>All spans of a line\<close>

lemma fold_SortSpan_frame:
  assumes "std_sort_contract srt" "\<forall>sp\<in>set ss. 0 \<le> start sp"
  shows "length (fst (foldl (\<lambda>st sp. SortSpan gen srt params sel sp st) st ss)) = length (fst st) \<and>
         (\<forall>p. (\<forall>sp\<in>set ss. int p \<notin> set (qualifying (length (fst st)) sel sp)) \<longrightarrow>
              fst (foldl (\<lambda>st sp. SortSpan gen srt params sel sp st) st ss) ! p = fst st ! p)"
  using assms(2)
proof (induction ss arbitrary: st)
  case Nil
  then show ?case by simp
next
  case (Cons sp ss)
  obtain row rng where st: "st = (row, rng)" by (cases st)
  let ?st1 = "SortSpan gen srt params sel sp st"
  have l1: "length (fst ?st1) = length row"
    unfolding st by (rule SortSpan_length [OF assms(1)])
  have ih: "length (fst (foldl (\<lambda>st sp. SortSpan gen srt params sel sp st) ?st1 ss)) = length (fst ?st1) \<and>
         (\<forall>p. (\<forall>sp\<in>set ss. int p \<notin> set (qualifying (length (fst ?st1)) sel sp)) \<longrightarrow>
              fst (foldl (\<lambda>st sp. SortSpan gen srt params sel sp st) ?st1 ss) ! p = fst ?st1 ! p)"
    using Cons.prems by (intro Cons.IH) simp
  show ?case
  proof (intro conjI allI impI)
    show "length (fst (foldl (\<lambda>st sp. SortSpan gen srt params sel sp st) st (sp # ss))) = length (fst st)"
      using ih l1 st by simp
  next
    fix p
    assume a: "\<forall>sp'\<in>set (sp # ss). int p \<notin> set (qualifying (length (fst st)) sel sp')"
    have "fst (foldl (\<lambda>st sp. SortSpan gen srt params sel sp st) ?st1 ss) ! p = fst ?st1 ! p"
      using ih a l1 st by simp
    also have "fst ?st1 ! p = row ! p"
      unfolding st using a Cons.prems st by (intro SortSpan_other [OF assms(1)]) simp_all
    finally show "fst (foldl (\<lambda>st sp. SortSpan gen srt params sel sp st) st (sp # ss)) ! p = fst st ! p"
      using st by simp
  qed
qed

lemma not_qualifying:
  "\<not> in_span (int p) sp \<or> mask_zero sel (int p) \<Longrightarrow> int p \<notin> set (qualifying n sel sp)"
  by (auto simp add: qualifying_def in_span_def)

section \<open>The insertion sort satisfies the contract\<close>

lemma mset_insert_before: "mset (insert_before lt x ys) = add_mset x (mset ys)"
  by (induction ys) simp_all

lemma mset_insertion_sort: "mset (insertion_sort lt xs) = mset xs"
  by (induction xs) (simp_all add: insertion_sort_def mset_insert_before)

lemma set_insert_before: "set (insert_before lt x ys) = insert x (set ys)"
  using mset_insert_before [of lt x ys] by (metis set_mset_add_mset_insert set_mset_mset)

lemma sorted_insert_before:
  "sorted_wrt (\<lambda>a b. \<not> sortValue_less b a) ys \<Longrightarrow>
   sorted_wrt (\<lambda>a b. \<not> sortValue_less b a) (insert_before sortValue_less x ys)"
  by (induction ys) (auto simp add: set_insert_before sortValue_less_def)

lemma insertion_sort_contract: "std_sort_contract insertion_sort"
proof -
  have "sorted_wrt (\<lambda>a b. \<not> sortValue_less b a) (insertion_sort sortValue_less xs)" for xs
    by (induction xs) (simp_all add: insertion_sort_def sorted_insert_before)
  then show ?thesis by (simp add: std_sort_contract_def mset_insertion_sort)
qed

section \<open>The blend\<close>

lemma sdiv_255_nonneg: "0 \<le> a \<Longrightarrow> a sdiv (255 :: int) = a div 255"
  by (simp add: signed_divide_int_def sgn_if)

lemma sdiv_255_neg: "a < 0 \<Longrightarrow> a sdiv (255 :: int) = - ((- a) div 255)"
  by (simp add: signed_divide_int_def sgn_if)

lemma blend_channel_uint:
  assumes "0 \<le> alpha" "alpha \<le> 255"
  shows "uint (blend_channel s orig alpha) = uint orig + ((uint s - uint orig) * alpha) sdiv 255"
proof -
  define d where "d = uint s - uint orig"
  define t where "t = (d * alpha) sdiv 255"
  have so: "0 \<le> uint s" "uint s < 256" "0 \<le> uint orig" "uint orig < 256"
    using uint_lt2p [of s] uint_lt2p [of orig] by simp_all
  have tb: "(0 \<le> d \<longrightarrow> 0 \<le> t \<and> t \<le> d) \<and> (d < 0 \<longrightarrow> d \<le> t \<and> t \<le> 0)"
  proof (cases "0 \<le> d")
    case True
    then have nn: "0 \<le> d * alpha" using assms(1) by simp
    have "d * alpha \<le> d * 255" using True assms(2) by (rule mult_left_mono [rotated])
    then have "(d * alpha) div 255 \<le> (d * 255) div 255" by (rule zdiv_mono1) simp
    then have "(d * alpha) div 255 \<le> d" by simp
    moreover have "0 \<le> (d * alpha) div 255" using nn by (simp add: pos_imp_zdiv_nonneg_iff)
    moreover have "t = (d * alpha) div 255"
      unfolding t_def by (rule sdiv_255_nonneg [OF nn])
    ultimately show ?thesis using True by simp
  next
    case False
    then have neg: "d < 0" by simp
    then have nn: "0 \<le> (- d) * alpha" using assms(1) by (intro mult_nonneg_nonneg) simp_all
    have "(- d) * alpha \<le> (- d) * 255" using neg assms(2) by (intro mult_left_mono) simp_all
    then have "((- d) * alpha) div 255 \<le> ((- d) * 255) div 255" by (rule zdiv_mono1) simp
    then have u: "((- d) * alpha) div 255 \<le> - d" by simp
    have l: "0 \<le> ((- d) * alpha) div 255" using nn by (simp add: pos_imp_zdiv_nonneg_iff)
    have "t = - (((- d) * alpha) div 255)"
    proof (cases "alpha = 0")
      case True
      then show ?thesis by (simp add: t_def sdiv_255_nonneg)
    next
      case False
      then have "d * alpha < 0" using neg assms(1) by (simp add: mult_less_0_iff)
      then show ?thesis unfolding t_def by (simp add: sdiv_255_neg)
    qed
    then show ?thesis using neg u l by simp
  qed
  have "0 \<le> t + uint orig \<and> t + uint orig < 256"
    using tb so unfolding d_def by linarith
  then have "uint (word_of_int (t + uint orig) :: BYTE) = t + uint orig"
    by (simp only: uint_word_of_int_eq) (rule take_bit_int_eq_self, simp_all)
  then show ?thesis by (simp add: blend_channel_def t_def d_def)
qed

lemma uint_byte_range: "0 \<le> uint (m :: BYTE) \<and> uint m \<le> 255"
  using uint_lt2p [of m] by simp

section \<open>The sort of a span\<close>

lemma sort_step_props:
  assumes "std_sort_contract srt"
  shows "mset (sort_step srt params pixelsWork) = mset pixelsWork \<and>
         (\<not> reverse params \<longrightarrow> sorted (map sortValue (sort_step srt params pixelsWork))) \<and>
         (reverse params \<longrightarrow>
            sort_step srt params pixelsWork =
              rev (sort_step srt (params\<lparr>reverse := False\<rparr>) pixelsWork) \<and>
            sorted (rev (map sortValue (sort_step srt params pixelsWork))))"
  using assms contract_sorted [OF assms, of pixelsWork]
  by (simp add: sort_step_mset) (simp add: sort_step_def Let_def rev_map)

lemma SortSpan_no_jitter:
  assumes "std_sort_contract srt" "\<not> fst (falloff_draw gen params rng)"
    "2 \<le> length (qualifying (length row) sel sp)" "jitter params = 0"
  shows "fst (SortSpan gen srt params sel sp (row, rng)) =
     write_back sel (start sp) (map (\<lambda>p. p - start sp) (qualifying (length row) sel sp))
       (sort_step srt params
          (map (pixel_data row (sortKey params)) (qualifying (length row) sel sp))) row"
proof -
  have "\<not> endx sp - start sp < 2"
    using qualifying_length_le [of "length row" sel sp] assms(3) by linarith
  then show ?thesis using assms by (simp add: SortSpan_eq arrange_no_jitter)
qed

text \<open>
  C2, amended: for every span processed by \<open>SortLine\<close>, the qualifying pixels are sorted
  ascending by their sort value with \<^verbatim>\<open>std::sort\<close>: the result is a permutation of the
  collected pixels in which the sort values are non-decreasing, whatever order the
  library gives to pixels of equal sort value; when \<open>reverse\<close> is set, this sorted
  sequence is reversed. Without jitter this sequence is what the write-back is handed.
\<close>

theorem sort_step_sorted_permutation:
  assumes "std_sort_contract srt"
  shows "mset (sort_step srt params pixelsWork) = mset pixelsWork \<and>
         (\<not> reverse params \<longrightarrow> sorted (map sortValue (sort_step srt params pixelsWork))) \<and>
         (reverse params \<longrightarrow>
            sort_step srt params pixelsWork =
              rev (sort_step srt (params\<lparr>reverse := False\<rparr>) pixelsWork) \<and>
            sorted (rev (map sortValue (sort_step srt params pixelsWork)))) \<and>
         (\<not> fst (falloff_draw gen params rng) \<and>
          2 \<le> length (qualifying (length row) sel sp) \<and> jitter params = 0 \<longrightarrow>
            fst (SortSpan gen srt params sel sp (row, rng)) =
              write_back sel (start sp)
                (map (\<lambda>p. p - start sp) (qualifying (length row) sel sp))
                (sort_step srt params
                   (map (pixel_data row (sortKey params)) (qualifying (length row) sel sp)))
                row)"
proof -
  have a: "mset (sort_step srt params pixelsWork) = mset pixelsWork \<and>
         (\<not> reverse params \<longrightarrow> sorted (map sortValue (sort_step srt params pixelsWork))) \<and>
         (reverse params \<longrightarrow>
            sort_step srt params pixelsWork =
              rev (sort_step srt (params\<lparr>reverse := False\<rparr>) pixelsWork) \<and>
            sorted (rev (map sortValue (sort_step srt params pixelsWork))))"
    by (rule sort_step_props [OF assms])
  have b: "\<not> fst (falloff_draw gen params rng) \<and>
          2 \<le> length (qualifying (length row) sel sp) \<and> jitter params = 0 \<longrightarrow>
            fst (SortSpan gen srt params sel sp (row, rng)) =
              write_back sel (start sp)
                (map (\<lambda>p. p - start sp) (qualifying (length row) sel sp))
                (sort_step srt params
                   (map (pixel_data row (sortKey params)) (qualifying (length row) sel sp)))
                row"
  proof
    assume h: "\<not> fst (falloff_draw gen params rng) \<and>
          2 \<le> length (qualifying (length row) sel sp) \<and> jitter params = 0"
    show "fst (SortSpan gen srt params sel sp (row, rng)) =
              write_back sel (start sp)
                (map (\<lambda>p. p - start sp) (qualifying (length row) sel sp))
                (sort_step srt params
                   (map (pixel_data row (sortKey params)) (qualifying (length row) sel sp)))
                row"
      by (rule SortSpan_no_jitter [OF assms]) (use h in simp_all)
  qed
  show ?thesis
    by (rule conjI [OF conjunct1 [OF a]
          conjI [OF conjunct1 [OF conjunct2 [OF a]]
            conjI [OF conjunct2 [OF conjunct2 [OF a]] b]]])
qed

theorem sort_step_sorted_permutation_witness:
  "std_sort_contract insertion_sort \<and>
   sort_step insertion_sort MakeDefaultParams
     [\<lparr>pix = (9, 0, 0), sortValue = 9\<rparr>, \<lparr>pix = (4, 0, 0), sortValue = 4\<rparr>] =
     [\<lparr>pix = (4, 0, 0), sortValue = 4\<rparr>, \<lparr>pix = (9, 0, 0), sortValue = 9\<rparr>] \<and>
   sorted (map sortValue (sort_step insertion_sort MakeDefaultParams
     [\<lparr>pix = (9, 0, 0), sortValue = 9\<rparr>, \<lparr>pix = (4, 0, 0), sortValue = 4\<rparr>]))"
proof -
  have r: "\<not> reverse MakeDefaultParams" by (simp add: MakeDefaultParams_def)
  have e: "sort_step insertion_sort MakeDefaultParams
     [\<lparr>pix = (9, 0, 0), sortValue = 9\<rparr>, \<lparr>pix = (4, 0, 0), sortValue = 4\<rparr>] =
     [\<lparr>pix = (4, 0, 0), sortValue = 4\<rparr>, \<lparr>pix = (9, 0, 0), sortValue = 9\<rparr>]"
    by (simp add: line_eval key_eval MakeDefaultParams_def)
  have "sorted (map sortValue (sort_step insertion_sort MakeDefaultParams
     [\<lparr>pix = (9, 0, 0), sortValue = 9\<rparr>, \<lparr>pix = (4, 0, 0), sortValue = 4\<rparr>]))"
    using sort_step_sorted_permutation [OF insertion_sort_contract, of MakeDefaultParams
      "[\<lparr>pix = (9, 0, 0), sortValue = 9\<rparr>, \<lparr>pix = (4, 0, 0), sortValue = 4\<rparr>]"
      counter_gen 0 "[]" None "\<lparr>start = 0, endx = 0\<rparr>",
      THEN conjunct2, THEN conjunct1] r
    by (rule mp)
  then show ?thesis using e insertion_sort_contract by simp
qed

lemma std_sort_impl_17:
  "std_sort_impl sortValue_less
     [\<lparr>pix = (10, 0, 0), sortValue = 10\<rparr>, \<lparr>pix = (10, 1, 0), sortValue = 10\<rparr>, \<lparr>pix = (10, 2, 0), sortValue = 10\<rparr>, \<lparr>pix = (10, 3, 0), sortValue = 10\<rparr>, \<lparr>pix = (10, 4, 0), sortValue = 10\<rparr>, \<lparr>pix = (10, 5, 0), sortValue = 10\<rparr>, \<lparr>pix = (10, 6, 0), sortValue = 10\<rparr>, \<lparr>pix = (10, 7, 0), sortValue = 10\<rparr>, \<lparr>pix = (10, 8, 0), sortValue = 10\<rparr>, \<lparr>pix = (10, 9, 0), sortValue = 10\<rparr>, \<lparr>pix = (10, 10, 0), sortValue = 10\<rparr>, \<lparr>pix = (10, 11, 0), sortValue = 10\<rparr>, \<lparr>pix = (10, 12, 0), sortValue = 10\<rparr>, \<lparr>pix = (10, 13, 0), sortValue = 10\<rparr>, \<lparr>pix = (10, 14, 0), sortValue = 10\<rparr>, \<lparr>pix = (10, 15, 0), sortValue = 10\<rparr>, \<lparr>pix = (10, 16, 0), sortValue = 10\<rparr>] =
   Some
     [\<lparr>pix = (10, 8, 0), sortValue = 10\<rparr>, \<lparr>pix = (10, 16, 0), sortValue = 10\<rparr>, \<lparr>pix = (10, 15, 0), sortValue = 10\<rparr>, \<lparr>pix = (10, 14, 0), sortValue = 10\<rparr>, \<lparr>pix = (10, 13, 0), sortValue = 10\<rparr>, \<lparr>pix = (10, 12, 0), sortValue = 10\<rparr>, \<lparr>pix = (10, 11, 0), sortValue = 10\<rparr>, \<lparr>pix = (10, 10, 0), sortValue = 10\<rparr>, \<lparr>pix = (10, 9, 0), sortValue = 10\<rparr>, \<lparr>pix = (10, 0, 0), sortValue = 10\<rparr>, \<lparr>pix = (10, 7, 0), sortValue = 10\<rparr>, \<lparr>pix = (10, 6, 0), sortValue = 10\<rparr>, \<lparr>pix = (10, 5, 0), sortValue = 10\<rparr>, \<lparr>pix = (10, 4, 0), sortValue = 10\<rparr>, \<lparr>pix = (10, 3, 0), sortValue = 10\<rparr>, \<lparr>pix = (10, 2, 0), sortValue = 10\<rparr>, \<lparr>pix = (10, 1, 0), sortValue = 10\<rparr>]"
  by code_simp

text \<open>
  C2, as stated, fails: the source calls \<^verbatim>\<open>std::sort\<close>, which is not a stable sort. A
  line of 17 pixels of the same red value 10, numbered by their green value, is one span
  sorted by red. The library partitions the 17 pixels once, which exchanges pixels of
  equal sort value, and the line comes back in another order: pixel 8 first, pixel 0 tenth.
\<close>

theorem stable_sort_counterexample:
  "GetSortValue (10, 0, 0) kSortKeyRed = GetSortValue (10, 8, 0) kSortKeyRed \<and>
   std_sort_impl sortValue_less
     [\<lparr>pix = (10, 0, 0), sortValue = 10\<rparr>, \<lparr>pix = (10, 1, 0), sortValue = 10\<rparr>, \<lparr>pix = (10, 2, 0), sortValue = 10\<rparr>, \<lparr>pix = (10, 3, 0), sortValue = 10\<rparr>, \<lparr>pix = (10, 4, 0), sortValue = 10\<rparr>, \<lparr>pix = (10, 5, 0), sortValue = 10\<rparr>, \<lparr>pix = (10, 6, 0), sortValue = 10\<rparr>, \<lparr>pix = (10, 7, 0), sortValue = 10\<rparr>, \<lparr>pix = (10, 8, 0), sortValue = 10\<rparr>, \<lparr>pix = (10, 9, 0), sortValue = 10\<rparr>, \<lparr>pix = (10, 10, 0), sortValue = 10\<rparr>, \<lparr>pix = (10, 11, 0), sortValue = 10\<rparr>, \<lparr>pix = (10, 12, 0), sortValue = 10\<rparr>, \<lparr>pix = (10, 13, 0), sortValue = 10\<rparr>, \<lparr>pix = (10, 14, 0), sortValue = 10\<rparr>, \<lparr>pix = (10, 15, 0), sortValue = 10\<rparr>, \<lparr>pix = (10, 16, 0), sortValue = 10\<rparr>] =
   Some
     [\<lparr>pix = (10, 8, 0), sortValue = 10\<rparr>, \<lparr>pix = (10, 16, 0), sortValue = 10\<rparr>, \<lparr>pix = (10, 15, 0), sortValue = 10\<rparr>, \<lparr>pix = (10, 14, 0), sortValue = 10\<rparr>, \<lparr>pix = (10, 13, 0), sortValue = 10\<rparr>, \<lparr>pix = (10, 12, 0), sortValue = 10\<rparr>, \<lparr>pix = (10, 11, 0), sortValue = 10\<rparr>, \<lparr>pix = (10, 10, 0), sortValue = 10\<rparr>, \<lparr>pix = (10, 9, 0), sortValue = 10\<rparr>, \<lparr>pix = (10, 0, 0), sortValue = 10\<rparr>, \<lparr>pix = (10, 7, 0), sortValue = 10\<rparr>, \<lparr>pix = (10, 6, 0), sortValue = 10\<rparr>, \<lparr>pix = (10, 5, 0), sortValue = 10\<rparr>, \<lparr>pix = (10, 4, 0), sortValue = 10\<rparr>, \<lparr>pix = (10, 3, 0), sortValue = 10\<rparr>, \<lparr>pix = (10, 2, 0), sortValue = 10\<rparr>, \<lparr>pix = (10, 1, 0), sortValue = 10\<rparr>] \<and>
   fst (SortLine counter_gen gnu_sort
          [(10, 0, 0), (10, 1, 0), (10, 2, 0), (10, 3, 0), (10, 4, 0), (10, 5, 0), (10, 6, 0), (10, 7, 0), (10, 8, 0), (10, 9, 0), (10, 10, 0), (10, 11, 0), (10, 12, 0), (10, 13, 0), (10, 14, 0), (10, 15, 0), (10, 16, 0)]
          (MakeDefaultParams\<lparr>intervalMode := kIntervalModeNone, sortKey := kSortKeyRed\<rparr>)
          None 0 0) =
     [(10, 8, 0), (10, 16, 0), (10, 15, 0), (10, 14, 0), (10, 13, 0), (10, 12, 0), (10, 11, 0), (10, 10, 0), (10, 9, 0), (10, 0, 0), (10, 7, 0), (10, 6, 0), (10, 5, 0), (10, 4, 0), (10, 3, 0), (10, 2, 0), (10, 1, 0)]"
proof -
  have g: "gnu_sort sortValue_less
     [\<lparr>pix = (10, 0, 0), sortValue = 10\<rparr>, \<lparr>pix = (10, 1, 0), sortValue = 10\<rparr>, \<lparr>pix = (10, 2, 0), sortValue = 10\<rparr>, \<lparr>pix = (10, 3, 0), sortValue = 10\<rparr>, \<lparr>pix = (10, 4, 0), sortValue = 10\<rparr>, \<lparr>pix = (10, 5, 0), sortValue = 10\<rparr>, \<lparr>pix = (10, 6, 0), sortValue = 10\<rparr>, \<lparr>pix = (10, 7, 0), sortValue = 10\<rparr>, \<lparr>pix = (10, 8, 0), sortValue = 10\<rparr>, \<lparr>pix = (10, 9, 0), sortValue = 10\<rparr>, \<lparr>pix = (10, 10, 0), sortValue = 10\<rparr>, \<lparr>pix = (10, 11, 0), sortValue = 10\<rparr>, \<lparr>pix = (10, 12, 0), sortValue = 10\<rparr>, \<lparr>pix = (10, 13, 0), sortValue = 10\<rparr>, \<lparr>pix = (10, 14, 0), sortValue = 10\<rparr>, \<lparr>pix = (10, 15, 0), sortValue = 10\<rparr>, \<lparr>pix = (10, 16, 0), sortValue = 10\<rparr>] =
     [\<lparr>pix = (10, 8, 0), sortValue = 10\<rparr>, \<lparr>pix = (10, 16, 0), sortValue = 10\<rparr>, \<lparr>pix = (10, 15, 0), sortValue = 10\<rparr>, \<lparr>pix = (10, 14, 0), sortValue = 10\<rparr>, \<lparr>pix = (10, 13, 0), sortValue = 10\<rparr>, \<lparr>pix = (10, 12, 0), sortValue = 10\<rparr>, \<lparr>pix = (10, 11, 0), sortValue = 10\<rparr>, \<lparr>pix = (10, 10, 0), sortValue = 10\<rparr>, \<lparr>pix = (10, 9, 0), sortValue = 10\<rparr>, \<lparr>pix = (10, 0, 0), sortValue = 10\<rparr>, \<lparr>pix = (10, 7, 0), sortValue = 10\<rparr>, \<lparr>pix = (10, 6, 0), sortValue = 10\<rparr>, \<lparr>pix = (10, 5, 0), sortValue = 10\<rparr>, \<lparr>pix = (10, 4, 0), sortValue = 10\<rparr>, \<lparr>pix = (10, 3, 0), sortValue = 10\<rparr>, \<lparr>pix = (10, 2, 0), sortValue = 10\<rparr>, \<lparr>pix = (10, 1, 0), sortValue = 10\<rparr>]"
    by (simp only: gnu_sort_def std_sort_impl_17 option.case)
  have "fst (SortLine counter_gen gnu_sort
          [(10, 0, 0), (10, 1, 0), (10, 2, 0), (10, 3, 0), (10, 4, 0), (10, 5, 0), (10, 6, 0), (10, 7, 0), (10, 8, 0), (10, 9, 0), (10, 10, 0), (10, 11, 0), (10, 12, 0), (10, 13, 0), (10, 14, 0), (10, 15, 0), (10, 16, 0)]
          (MakeDefaultParams\<lparr>intervalMode := kIntervalModeNone, sortKey := kSortKeyRed\<rparr>)
          None 0 0) =
     [(10, 8, 0), (10, 16, 0), (10, 15, 0), (10, 14, 0), (10, 13, 0), (10, 12, 0), (10, 11, 0), (10, 10, 0), (10, 9, 0), (10, 0, 0), (10, 7, 0), (10, 6, 0), (10, 5, 0), (10, 4, 0), (10, 3, 0), (10, 2, 0), (10, 1, 0)]"
    by (simp add: detect_eval line_eval key_eval g)
  then show ?thesis using std_sort_impl_17 by simp
qed

section \<open>The sort keys after the write-back\<close>

lemma sorted_short: "length xs < 2 \<Longrightarrow> sorted (xs :: real list)"
  by (cases xs) (simp, cases "tl xs", simp_all)

lemma written_full: "mask_full sel q \<Longrightarrow> written sel row q v = v"
  by (cases sel) (simp_all add: mask_full_def written_def)

lemma sortValue_of_pix:
  assumes "x \<in> set (map (pixel_data row key) Q)"
  shows "GetSortValue (pix x) key = sortValue x"
  using assms by (auto simp add: pixel_data_def)

lemma direct_subsequence:
  assumes "length Q = length vs" "sorted_wrt R vs"
    "\<forall>k<length Q. P (Q ! k) \<longrightarrow> f (Q ! k) = vs ! k"
  shows "sorted_wrt R (map f (filter P Q))"
  using assms
proof (induction Q vs rule: list_induct2)
  case Nil
  then show ?case by simp
next
  case (Cons q Q v vs)
  have tl: "\<forall>k<length Q. P (Q ! k) \<longrightarrow> f (Q ! k) = vs ! k"
  proof (intro allI impI)
    fix k assume "k < length Q" "P (Q ! k)"
    then show "f (Q ! k) = vs ! k" using Cons.prems(2) [rule_format, of "Suc k"] by simp
  qed
  have ih: "sorted_wrt R (map f (filter P Q))"
    using Cons.prems(1) tl by (intro Cons.IH) simp_all
  show ?case
  proof (cases "P q")
    case False
    then show ?thesis using ih by simp
  next
    case True
    have fq: "f q = v" using Cons.prems(2) [rule_format, of 0] True by simp
    have "R v y" if "y \<in> set (map f (filter P Q))" for y
    proof -
      from that obtain q' where q': "q' \<in> set Q" "P q'" "y = f q'" by auto
      then obtain k where k: "k < length Q" "Q ! k = q'" by (auto simp add: in_set_conv_nth)
      then have "y = vs ! k" using tl q' by auto
      then have "y \<in> set vs" using k Cons.hyps by simp
      then show ?thesis using Cons.prems(1) by simp
    qed
    then show ?thesis using True ih fq by simp
  qed
qed

lemma direct_keys:
  assumes "std_sort_contract srt" "jitter params = 0" "0 \<le> start sp"
    "\<not> fst (falloff_draw gen params rng)"
    "2 \<le> length (qualifying (length row) sel sp)"
    "k < length (qualifying (length row) sel sp)"
    "mask_full sel (qualifying (length row) sel sp ! k)"
  shows "GetSortValue (fst (SortSpan gen srt params sel sp (row, rng)) !
            nat (qualifying (length row) sel sp ! k)) (sortKey params) =
         map sortValue (sort_step srt params
           (map (pixel_data row (sortKey params)) (qualifying (length row) sel sp))) ! k"
proof -
  let ?Q = "qualifying (length row) sel sp"
  let ?S = "sort_step srt params (map (pixel_data row (sortKey params)) ?Q)"
  let ?row' = "fst (SortSpan gen srt params sel sp (row, rng))"
  have ls: "length ?S = length ?Q" using assms(1) by (simp add: sort_step_length)
  have arr: "fst (arrange gen srt params (map (pixel_data row (sortKey params)) ?Q)
               (snd (falloff_draw gen params rng))) = ?S"
    using assms(2) by (simp add: arrange_no_jitter)
  have "?row' ! nat (?Q ! k) = written sel row (?Q ! k) (pix (?S ! k))"
    using SortSpan_written [OF assms(1) assms(3) assms(4) assms(5) assms(6)] arr by simp
  also have "\<dots> = pix (?S ! k)"
    using assms(7) by (intro written_full)
  finally have w: "?row' ! nat (?Q ! k) = pix (?S ! k)" .
  have "?S ! k \<in> set ?S" using assms(6) ls by simp
  then have "?S ! k \<in># mset ?S" by simp
  then have "?S ! k \<in># mset (map (pixel_data row (sortKey params)) ?Q)"
    using sort_step_mset [OF assms(1)] by metis
  then have "?S ! k \<in> set (map (pixel_data row (sortKey params)) ?Q)" by simp
  then have "GetSortValue (pix (?S ! k)) (sortKey params) = sortValue (?S ! k)"
    by (rule sortValue_of_pix)
  then show ?thesis using assms(6) ls w by simp
qed

text \<open>
  C8, amended: for every processed span with \<open>jitter = 0\<close>, the sort-key values of the
  pixels written back directly (at the qualifying positions without a selection mask, or
  with the mask value 255), in position order, are non-decreasing when \<open>reverse\<close> is false
  and non-increasing when it is true. A position with a mask value between 0 and 255
  receives a blend, whose sort-key value is not bound by its neighbours.
\<close>

theorem sorted_keys_of_direct_writes:
  assumes "std_sort_contract srt" "jitter params = 0" "0 \<le> start sp"
    "\<not> fst (falloff_draw gen params rng)"
  shows "(\<not> reverse params \<longrightarrow>
            sorted (map (\<lambda>q. GetSortValue (fst (SortSpan gen srt params sel sp (row, rng)) ! nat q)
                              (sortKey params))
                     (filter (mask_full sel) (qualifying (length row) sel sp)))) \<and>
         (reverse params \<longrightarrow>
            sorted (rev (map (\<lambda>q. GetSortValue (fst (SortSpan gen srt params sel sp (row, rng)) ! nat q)
                                   (sortKey params))
                          (filter (mask_full sel) (qualifying (length row) sel sp)))))"
proof (cases "2 \<le> length (qualifying (length row) sel sp)")
  case False
  let ?xs = "map (\<lambda>q. GetSortValue (fst (SortSpan gen srt params sel sp (row, rng)) ! nat q)
                              (sortKey params))
                     (filter (mask_full sel) (qualifying (length row) sel sp))"
  have "length (filter (mask_full sel) (qualifying (length row) sel sp)) \<le>
          length (qualifying (length row) sel sp)" by (rule length_filter_le)
  then have "length (filter (mask_full sel) (qualifying (length row) sel sp)) < 2"
    using False by linarith
  then have "length ?xs < 2" by simp
  then have "sorted ?xs" "sorted (rev ?xs)"
    using sorted_short [of ?xs] sorted_short [of "rev ?xs"] by simp_all
  then show ?thesis by simp
next
  case True
  let ?Q = "qualifying (length row) sel sp"
  let ?S = "sort_step srt params (map (pixel_data row (sortKey params)) ?Q)"
  let ?f = "\<lambda>q. GetSortValue (fst (SortSpan gen srt params sel sp (row, rng)) ! nat q)
                              (sortKey params)"
  have len: "length ?Q = length (map sortValue ?S)"
    using assms(1) by (simp add: sort_step_length)
  have pt: "\<forall>k<length ?Q. mask_full sel (?Q ! k) \<longrightarrow> ?f (?Q ! k) = map sortValue ?S ! k"
    using direct_keys [OF assms True] by blast
  have up: "sorted (map ?f (filter (mask_full sel) ?Q))" if "\<not> reverse params"
  proof -
    have "sorted_wrt (\<le>) (map sortValue ?S)"
      using sort_step_props [OF assms(1), of params] that by blast
    then show ?thesis using direct_subsequence [OF len _ pt] by blast
  qed
  have down: "sorted (rev (map ?f (filter (mask_full sel) ?Q)))" if "reverse params"
  proof -
    have "sorted (rev (map sortValue ?S))"
      using sort_step_props [OF assms(1), of params] that by blast
    then have "sorted_wrt (\<lambda>x y. y \<le> x) (map sortValue ?S)"
      by (simp add: sorted_wrt_rev)
    then have "sorted_wrt (\<lambda>x y. y \<le> x) (map ?f (filter (mask_full sel) ?Q))"
      using direct_subsequence [OF len _ pt] by blast
    then show ?thesis by (simp add: sorted_wrt_rev)
  qed
  show ?thesis using up down by blast
qed

section \<open>The written pixel\<close>

lemma written_cases:
  "(mask_full sel q \<longrightarrow> written sel row q v = v) \<and>
   (\<forall>m. sel = Some m \<and> m ! nat q \<noteq> 255 \<and> m ! nat q \<noteq> 0 \<longrightarrow>
        written sel row q v = blend_pixel v (row ! nat q) (uint (m ! nat q)))"
  by (cases sel) (simp_all add: mask_full_def written_def word_greater_zero_iff)


text \<open>
  C5: in a processed span (not skipped by falloff, at least two qualifying positions)
  the \<open>k\<close>-th qualifying position receives the \<open>k\<close>-th arranged pixel directly when there
  is no mask or the mask value there is 255; under a mask value \<open>m\<close> strictly between 0
  and 255 it receives the blend, each channel being
  \<open>original + ((sorted - original) * m) sdiv 255\<close> with the division truncating toward
  zero; a position whose mask value is 0 keeps its pixel.
\<close>

theorem write_back_blends:
  assumes "std_sort_contract srt" "0 \<le> start sp" "\<not> fst (falloff_draw gen params rng)"
    "2 \<le> length (qualifying (length row) sel sp)"
  shows "(\<forall>k < length (qualifying (length row) sel sp).
            (mask_full sel (qualifying (length row) sel sp ! k) \<longrightarrow>
               fst (SortSpan gen srt params sel sp (row, rng)) ! nat (qualifying (length row) sel sp ! k) =
               pix (fst (arrange gen srt params
                      (map (pixel_data row (sortKey params)) (qualifying (length row) sel sp))
                      (snd (falloff_draw gen params rng))) ! k)) \<and>
            (\<forall>m. sel = Some m \<and> m ! nat (qualifying (length row) sel sp ! k) \<noteq> 255 \<longrightarrow>
               0 < uint (m ! nat (qualifying (length row) sel sp ! k)) \<and>
               uint (m ! nat (qualifying (length row) sel sp ! k)) < 255 \<and>
               fst (SortSpan gen srt params sel sp (row, rng)) ! nat (qualifying (length row) sel sp ! k) =
               blend_pixel
                 (pix (fst (arrange gen srt params
                      (map (pixel_data row (sortKey params)) (qualifying (length row) sel sp))
                      (snd (falloff_draw gen params rng))) ! k))
                 (row ! nat (qualifying (length row) sel sp ! k))
                 (uint (m ! nat (qualifying (length row) sel sp ! k))))) \<and>
         (\<forall>s orig m. uint (blend_channel s orig (uint (m :: BYTE))) =
                       uint orig + ((uint s - uint orig) * uint m) sdiv 255) \<and>
         (\<forall>s orig alpha. blend_pixel s orig alpha =
                       (blend_channel (fst s) (fst orig) alpha,
                        blend_channel (fst (snd s)) (fst (snd orig)) alpha,
                        blend_channel (snd (snd s)) (snd (snd orig)) alpha)) \<and>
         (\<forall>p < length row. mask_zero sel (int p) \<longrightarrow>
            fst (SortSpan gen srt params sel sp (row, rng)) ! p = row ! p)"
proof (intro conjI allI impI)
  fix k assume k: "k < length (qualifying (length row) sel sp)"
    and f: "mask_full sel (qualifying (length row) sel sp ! k)"
  show "fst (SortSpan gen srt params sel sp (row, rng)) ! nat (qualifying (length row) sel sp ! k) =
               pix (fst (arrange gen srt params
                      (map (pixel_data row (sortKey params)) (qualifying (length row) sel sp))
                      (snd (falloff_draw gen params rng))) ! k)"
    using SortSpan_written [OF assms k] f by (simp add: written_full)
next
  fix k m assume k: "k < length (qualifying (length row) sel sp)"
    and m: "sel = Some m \<and> m ! nat (qualifying (length row) sel sp ! k) \<noteq> 255"
  let ?q = "qualifying (length row) sel sp ! k"
  from m have m1: "sel = Some m" and m2: "m ! nat ?q \<noteq> 255" by blast+
  have "?q \<in> set (qualifying (length row) sel sp)" using k by simp
  then have "\<not> mask_zero sel ?q" using qualifying_props(2) [OF assms(2)] by blast
  then have nz: "m ! nat ?q \<noteq> 0" using m by (simp add: mask_zero_def)
  then have "uint (m ! nat ?q) \<noteq> 0" by (simp add: uint_0_iff)
  then show "0 < uint (m ! nat ?q)" using uint_byte_range [of "m ! nat ?q"] by linarith
  have "uint (m ! nat ?q) \<noteq> 255"
  proof
    assume "uint (m ! nat ?q) = 255"
    then have "uint (m ! nat ?q) = uint (255 :: BYTE)" by simp
    then have "m ! nat ?q = 255" by (simp only: word_uint_eq_iff)
    then show False using m2 by simp
  qed
  then show "uint (m ! nat ?q) < 255" using uint_byte_range [of "m ! nat ?q"] by linarith
  show "fst (SortSpan gen srt params sel sp (row, rng)) ! nat ?q =
               blend_pixel
                 (pix (fst (arrange gen srt params
                      (map (pixel_data row (sortKey params)) (qualifying (length row) sel sp))
                      (snd (falloff_draw gen params rng))) ! k))
                 (row ! nat ?q) (uint (m ! nat ?q))"
    using SortSpan_written [OF assms k] m2 nz
    by (simp add: m1 written_def word_greater_zero_iff)
next
  fix s orig and m :: BYTE
  show "uint (blend_channel s orig (uint m)) =
          uint orig + ((uint s - uint orig) * uint m) sdiv 255"
    using uint_byte_range [of m] by (intro blend_channel_uint) simp_all
next
  fix s orig :: rgb and alpha
  show "blend_pixel s orig alpha =
                       (blend_channel (fst s) (fst orig) alpha,
                        blend_channel (fst (snd s)) (fst (snd orig)) alpha,
                        blend_channel (snd (snd s)) (snd (snd orig)) alpha)"
    by (simp add: blend_pixel_def split: prod.splits)
next
  fix p assume "p < length row" and z: "mask_zero sel (int p)"
  show "fst (SortSpan gen srt params sel sp (row, rng)) ! p = row ! p"
    by (rule SortSpan_other [OF assms(1,2)]) (use z in \<open>simp add: not_qualifying\<close>)
qed

lemma upto_0_2: "[0 .. (2 :: int)] = [0, 1, 2]"
  by (simp add: upto_rec1)

theorem write_back_blends_witness:
  "std_sort_contract insertion_sort \<and>
   qualifying 3 (Some [128, 0, 255]) \<lparr>start = 0, endx = 3\<rparr> = [0, 2] \<and>
   mask_zero (Some [128, 0, 255]) 1 \<and>
   fst (SortSpan counter_gen insertion_sort
          (MakeDefaultParams\<lparr>intervalMode := kIntervalModeNone, sortKey := kSortKeyRed\<rparr>)
          (Some [128, 0, 255]) \<lparr>start = 0, endx = 3\<rparr>
          ([(200, 0, 0), (100, 0, 0), (50, 0, 0)], 0)) =
     [(125, 0, 0), (100, 0, 0), (200, 0, 0)] \<and>
   fst (SortSpan counter_gen insertion_sort
          (MakeDefaultParams\<lparr>intervalMode := kIntervalModeNone, sortKey := kSortKeyRed\<rparr>)
          (Some [128, 0, 255]) \<lparr>start = 0, endx = 3\<rparr>
          ([(200, 0, 0), (100, 0, 0), (50, 0, 0)], 0)) ! 1 =
     [(200, 0, 0), (100, 0, 0), (50, 0, 0)] ! 1"
proof -
  let ?P = "MakeDefaultParams\<lparr>intervalMode := kIntervalModeNone, sortKey := kSortKeyRed\<rparr>"
  let ?row = "[(200, 0, 0), (100, 0, 0), (50, 0, 0)] :: rgb list"
  have q: "qualifying 3 (Some [128, 0, 255]) \<lparr>start = 0, endx = 3\<rparr> = [0, 2]"
    by (simp add: qualifying_def mask_zero_def upto_0_2)
  have h1: "(0 :: int) \<le> start \<lparr>start = 0, endx = 3\<rparr>" by simp
  have h2: "\<not> fst (falloff_draw counter_gen ?P (0 :: nat))"
    by (simp add: falloff_draw_def MakeDefaultParams_def)
  have h3: "2 \<le> length (qualifying (length ?row) (Some [128, 0, 255]) \<lparr>start = 0, endx = 3\<rparr>)"
    by (simp add: qualifying_def mask_zero_def upto_0_2)
  have z: "mask_zero (Some [128, 0, 255]) (int 1)" by (simp add: mask_zero_def)
  have "fst (SortSpan counter_gen insertion_sort ?P (Some [128, 0, 255]) \<lparr>start = 0, endx = 3\<rparr>
          (?row, 0)) ! 1 = ?row ! 1"
    using write_back_blends [OF insertion_sort_contract h1 h2 h3] z by simp
  moreover have "fst (SortSpan counter_gen insertion_sort ?P (Some [128, 0, 255])
          \<lparr>start = 0, endx = 3\<rparr> (?row, 0)) = [(125, 0, 0), (100, 0, 0), (200, 0, 0)]"
    by (simp add: line_eval key_eval MakeDefaultParams_def)
  ultimately show ?thesis using q z insertion_sort_contract by simp
qed


theorem sorted_keys_of_direct_writes_witness:
  "std_sort_contract insertion_sort \<and>
   filter (mask_full (Some [255, 128, 255]))
     (qualifying 3 (Some [255, 128, 255]) \<lparr>start = 0, endx = 3\<rparr>) = [0, 2] \<and>
   fst (SortSpan counter_gen insertion_sort
          (MakeDefaultParams\<lparr>intervalMode := kIntervalModeNone, sortKey := kSortKeyRed\<rparr>)
          (Some [255, 128, 255]) \<lparr>start = 0, endx = 3\<rparr>
          ([(200, 0, 0), (50, 0, 0), (100, 0, 0)], 0)) =
     [(50, 0, 0), (75, 0, 0), (200, 0, 0)] \<and>
   sorted (map (\<lambda>q. GetSortValue
        (fst (SortSpan counter_gen insertion_sort
          (MakeDefaultParams\<lparr>intervalMode := kIntervalModeNone, sortKey := kSortKeyRed\<rparr>)
          (Some [255, 128, 255]) \<lparr>start = 0, endx = 3\<rparr>
          ([(200, 0, 0), (50, 0, 0), (100, 0, 0)], 0)) ! nat q)
        kSortKeyRed) [0, 2])"
proof -
  let ?P = "MakeDefaultParams\<lparr>intervalMode := kIntervalModeNone, sortKey := kSortKeyRed\<rparr>"
  let ?row = "[(200, 0, 0), (50, 0, 0), (100, 0, 0)] :: rgb list"
  let ?sp = "\<lparr>start = 0, endx = 3\<rparr>"
  let ?sel = "Some [255, 128, 255 :: BYTE]"
  have q: "filter (mask_full ?sel) (qualifying 3 ?sel ?sp) = [0, 2]"
    by (simp add: qualifying_def mask_zero_def mask_full_def upto_0_2)
  have q': "filter (mask_full ?sel) (qualifying (length ?row) ?sel ?sp) = [0, 2]"
    by (simp add: qualifying_def mask_zero_def mask_full_def upto_0_2)
  have h0: "jitter ?P = 0" by (simp add: MakeDefaultParams_def)
  have h1: "(0 :: int) \<le> start ?sp" by simp
  have h2: "\<not> fst (falloff_draw counter_gen ?P (0 :: nat))"
    by (simp add: falloff_draw_def MakeDefaultParams_def)
  have r: "\<not> reverse ?P" "sortKey ?P = kSortKeyRed" by (simp_all add: MakeDefaultParams_def)
  have a: "sorted (map (\<lambda>q. GetSortValue
        (fst (SortSpan counter_gen insertion_sort ?P ?sel ?sp (?row, 0 :: nat)) ! nat q)
        kSortKeyRed) [0, 2])"
    using sorted_keys_of_direct_writes [OF insertion_sort_contract h0 h1 h2, of ?sel ?row] r
    by (simp only: q') simp
  have c: "fst (SortSpan counter_gen insertion_sort ?P ?sel ?sp (?row, 0 :: nat)) =
     [(50, 0, 0), (75, 0, 0), (200, 0, 0)]"
    by (simp add: line_eval key_eval MakeDefaultParams_def)
  show ?thesis
    by (rule conjI [OF insertion_sort_contract conjI [OF q conjI [OF c a]]])
qed

lemma std_sort_impl_3:
  "std_sort_impl sortValue_less
     [\<lparr>pix = (200, 0, 0), sortValue = 200\<rparr>, \<lparr>pix = (100, 0, 0), sortValue = 100\<rparr>,
      \<lparr>pix = (50, 0, 0), sortValue = 50\<rparr>] =
   Some [\<lparr>pix = (50, 0, 0), sortValue = 50\<rparr>, \<lparr>pix = (100, 0, 0), sortValue = 100\<rparr>,
      \<lparr>pix = (200, 0, 0), sortValue = 200\<rparr>]"
  by code_simp

text \<open>
  C8, as stated, fails under a partial selection: with the mask values 1, 255, 255 the
  span \<open>[0,3)\<close> over the reds 200, 100, 50 is processed without jitter and without
  reversal, the first position receives the blend of the sorted red 50 into the red 200
  that was there, and the line is left with the reds 200, 100, 200.
\<close>

theorem blended_keys_counterexample:
  "jitter (MakeDefaultParams\<lparr>intervalMode := kIntervalModeNone, sortKey := kSortKeyRed\<rparr>) = 0 \<and>
   \<not> reverse (MakeDefaultParams\<lparr>intervalMode := kIntervalModeNone, sortKey := kSortKeyRed\<rparr>) \<and>
   fst (SortLine counter_gen gnu_sort [(200, 0, 0), (100, 0, 0), (50, 0, 0)]
          (MakeDefaultParams\<lparr>intervalMode := kIntervalModeNone, sortKey := kSortKeyRed\<rparr>)
          (Some [1, 255, 255]) 0 0) = [(200, 0, 0), (100, 0, 0), (200, 0, 0)] \<and>
   \<not> sorted (map (\<lambda>p. GetSortValue p kSortKeyRed) [(200, 0, 0), (100, 0, 0), (200, 0, 0)])"
proof -
  have g: "gnu_sort sortValue_less
     [\<lparr>pix = (200, 0, 0), sortValue = 200\<rparr>, \<lparr>pix = (100, 0, 0), sortValue = 100\<rparr>,
      \<lparr>pix = (50, 0, 0), sortValue = 50\<rparr>] =
     [\<lparr>pix = (50, 0, 0), sortValue = 50\<rparr>, \<lparr>pix = (100, 0, 0), sortValue = 100\<rparr>,
      \<lparr>pix = (200, 0, 0), sortValue = 200\<rparr>]"
    by (simp only: gnu_sort_def std_sort_impl_3 option.case)
  show ?thesis
    by (simp add: detect_eval line_eval key_eval g)
qed


section \<open>What SortLine leaves untouched\<close>

lemma fold_SortSpan_few:
  assumes "std_sort_contract srt"
    "\<forall>sp\<in>set ss. length (qualifying (length (fst st)) sel sp) < 2"
  shows "fst (foldl (\<lambda>st sp. SortSpan gen srt params sel sp st) st ss) = fst st"
  using assms(2)
proof (induction ss arbitrary: st)
  case Nil
  then show ?case by simp
next
  case (Cons sp ss)
  obtain row rng where st: "st = (row, rng)" by (cases st)
  have 1: "fst (SortSpan gen srt params sel sp st) = row"
    unfolding st using Cons.prems st by (intro SortSpan_skip) simp
  have "fst (foldl (\<lambda>st sp. SortSpan gen srt params sel sp st)
               (SortSpan gen srt params sel sp st) ss) = fst (SortSpan gen srt params sel sp st)"
    using Cons.prems 1 st by (intro Cons.IH) simp
  then show ?case using 1 st by simp
qed

lemma qualifying_short_line:
  assumes "0 \<le> start sp" "n \<le> 1"
  shows "length (qualifying n sel sp) < 2"
proof -
  have "length (qualifying n sel sp) \<le> length [start sp .. min (endx sp) (int n) - 1]"
    unfolding qualifying_def by (rule length_filter_le)
  also have "\<dots> \<le> 1" using assms by simp
  finally show ?thesis by simp
qed

lemma SortLine_fold:
  "length row \<noteq> 0 \<Longrightarrow>
   SortLine gen srt row params sel rowIndex rng =
     foldl (\<lambda>st sp. SortSpan gen srt params sel sp st)
       (row, snd (DetectSpans gen row params rowIndex rng))
       (fst (DetectSpans gen row params rowIndex rng))"
  by (simp add: SortLine_def split: prod.splits)

lemma DetectSpans_start_nonneg:
  "\<forall>sp\<in>set (fst (DetectSpans gen row params rowIndex rng)). 0 \<le> start sp"
  using DetectSpans_within [of row gen params rowIndex rng] by (simp add: spans_within_def)

text \<open>
  C10: \<open>SortLine\<close> keeps the length of the line and changes a position only if it lies
  in a span returned by \<open>DetectSpans\<close> and its mask value (if there is a mask) is not
  zero; a line of length 0 or 1 is returned as it is; and every position of a span that
  is skipped by falloff, or that has fewer than two qualifying positions, holds its
  input pixel after the call.
\<close>

theorem SortLine_frame:
  assumes "std_sort_contract srt"
  shows "length (fst (SortLine gen srt row params sel rowIndex rng)) = length row \<and>
    (\<forall>p < length row.
       (\<not> (\<exists>sp\<in>set (fst (DetectSpans gen row params rowIndex rng)). in_span (int p) sp) \<or>
        mask_zero sel (int p)) \<longrightarrow>
       fst (SortLine gen srt row params sel rowIndex rng) ! p = row ! p) \<and>
    (length row \<le> 1 \<longrightarrow> fst (SortLine gen srt row params sel rowIndex rng) = row) \<and>
    (\<forall>pre sp post.
       fst (DetectSpans gen row params rowIndex rng) = pre @ sp # post \<and>
       (fst (falloff_draw gen params
               (snd (foldl (\<lambda>st sp. SortSpan gen srt params sel sp st)
                       (row, snd (DetectSpans gen row params rowIndex rng)) pre))) \<or>
        length (qualifying (length row) sel sp) < 2) \<longrightarrow>
       (\<forall>p < length row. in_span (int p) sp \<longrightarrow>
          fst (SortLine gen srt row params sel rowIndex rng) ! p = row ! p))"
proof (cases "length row = 0")
  case True
  then show ?thesis by (simp add: SortLine_def)
next
  case False
  let ?D = "fst (DetectSpans gen row params rowIndex rng)"
  let ?st0 = "(row, snd (DetectSpans gen row params rowIndex rng))"
  let ?f = "\<lambda>st sp. SortSpan gen srt params sel sp st"
  have sl: "SortLine gen srt row params sel rowIndex rng = foldl ?f ?st0 ?D"
    by (rule SortLine_fold [OF False])
  have nn: "\<forall>sp\<in>set ?D. 0 \<le> start sp" by (rule DetectSpans_start_nonneg)
  have asc: "sorted_wrt (\<lambda>a b. endx a \<le> start b) ?D"
    using DetectSpans_within [of row gen params rowIndex rng]
    by (simp add: spans_within_def spans_ascending_def)
  have fr: "length (fst (foldl ?f ?st0 ?D)) = length (fst ?st0) \<and>
         (\<forall>p. (\<forall>sp\<in>set ?D. int p \<notin> set (qualifying (length (fst ?st0)) sel sp)) \<longrightarrow>
              fst (foldl ?f ?st0 ?D) ! p = fst ?st0 ! p)"
    by (rule fold_SortSpan_frame [OF assms nn])
  have c1: "length (fst (SortLine gen srt row params sel rowIndex rng)) = length row"
    using fr sl by simp
  have c2: "\<forall>p < length row.
       (\<not> (\<exists>sp\<in>set ?D. in_span (int p) sp) \<or> mask_zero sel (int p)) \<longrightarrow>
       fst (SortLine gen srt row params sel rowIndex rng) ! p = row ! p"
  proof (intro allI impI)
    fix p assume "p < length row"
      and a: "\<not> (\<exists>sp\<in>set ?D. in_span (int p) sp) \<or> mask_zero sel (int p)"
    have "\<forall>sp\<in>set ?D. int p \<notin> set (qualifying (length row) sel sp)"
    proof
      fix sp assume "sp \<in> set ?D"
      then have "\<not> in_span (int p) sp \<or> mask_zero sel (int p)" using a by blast
      then show "int p \<notin> set (qualifying (length row) sel sp)" by (rule not_qualifying)
    qed
    then show "fst (SortLine gen srt row params sel rowIndex rng) ! p = row ! p"
      using fr sl by simp
  qed
  have c3: "length row \<le> 1 \<longrightarrow> fst (SortLine gen srt row params sel rowIndex rng) = row"
  proof
    assume s: "length row \<le> 1"
    have "\<forall>sp\<in>set ?D. length (qualifying (length (fst ?st0)) sel sp) < 2"
      using nn s by (simp add: qualifying_short_line)
    then have "fst (foldl ?f ?st0 ?D) = fst ?st0"
      by (rule fold_SortSpan_few [OF assms])
    then show "fst (SortLine gen srt row params sel rowIndex rng) = row" using sl by simp
  qed
  have c4: "\<forall>pre sp post.
       ?D = pre @ sp # post \<and>
       (fst (falloff_draw gen params (snd (foldl ?f ?st0 pre))) \<or>
        length (qualifying (length row) sel sp) < 2) \<longrightarrow>
       (\<forall>p < length row. in_span (int p) sp \<longrightarrow>
          fst (SortLine gen srt row params sel rowIndex rng) ! p = row ! p)"
  proof (intro allI impI)
    fix pre sp post p
    assume h: "?D = pre @ sp # post \<and>
       (fst (falloff_draw gen params (snd (foldl ?f ?st0 pre))) \<or>
        length (qualifying (length row) sel sp) < 2)"
      and p: "p < length row" and ins: "in_span (int p) sp"
    from h have D: "?D = pre @ sp # post" by blast
    from h have sk: "fst (falloff_draw gen params (snd (foldl ?f ?st0 pre))) \<or>
        length (qualifying (length row) sel sp) < 2" by blast
    have nnpre: "\<forall>sp'\<in>set pre. 0 \<le> start sp'" and nnpost: "\<forall>sp'\<in>set post. 0 \<le> start sp'"
      using nn D by simp_all
    have so: "sorted_wrt (\<lambda>a b. endx a \<le> start b) (pre @ sp # post)" using asc D by simp
    have before: "\<forall>sp'\<in>set pre. endx sp' \<le> start sp"
      using so by (simp add: sorted_wrt_append)
    have after: "\<forall>sp'\<in>set post. endx sp \<le> start sp'"
      using so by (simp add: sorted_wrt_append)
    have npre: "\<forall>sp'\<in>set pre. int p \<notin> set (qualifying (length row) sel sp')"
    proof
      fix sp' assume "sp' \<in> set pre"
      then have "\<not> in_span (int p) sp'" using before ins by (auto simp add: in_span_def)
      then show "int p \<notin> set (qualifying (length row) sel sp')" by (simp add: not_qualifying)
    qed
    have npost: "\<forall>sp'\<in>set post. int p \<notin> set (qualifying (length row) sel sp')"
    proof
      fix sp' assume "sp' \<in> set post"
      then have "\<not> in_span (int p) sp'" using after ins by (auto simp add: in_span_def)
      then show "int p \<notin> set (qualifying (length row) sel sp')" by (simp add: not_qualifying)
    qed
    let ?s1 = "foldl ?f ?st0 pre"
    have f1: "length (fst ?s1) = length row \<and> fst ?s1 ! p = row ! p"
      using fold_SortSpan_frame [OF assms nnpre, of gen params sel ?st0] npre by simp
    obtain r1 g1 where s1: "?s1 = (r1, g1)" by (cases ?s1)
    have r1: "length r1 = length row" "r1 ! p = row ! p" using f1 s1 by simp_all
    have "fst (SortSpan gen srt params sel sp (r1, g1)) = r1"
      using sk s1 r1(1) by (intro SortSpan_skip) simp
    then have f2: "fst (?f ?s1 sp) = r1" using s1 by simp
    have f3: "fst (foldl ?f (?f ?s1 sp) post) ! p = fst (?f ?s1 sp) ! p"
      using fold_SortSpan_frame [OF assms nnpost, of gen params sel "?f ?s1 sp"] npost f2 r1(1)
      by simp
    have "foldl ?f ?st0 ?D = foldl ?f (?f ?s1 sp) post" by (simp only: D foldl_append foldl_Cons)
    then show "fst (SortLine gen srt row params sel rowIndex rng) ! p = row ! p"
      using sl f3 f2 r1(2) by simp
  qed
  show ?thesis using c1 c2 c3 c4 by blast
qed

theorem SortLine_frame_witness:
  "std_sort_contract insertion_sort \<and>
   fst (DetectSpans counter_gen [(9, 9, 9), (200, 0, 0), (100, 0, 0), (50, 0, 0), (7, 7, 7)]
          (MakeDefaultParams\<lparr>lowerThreshold := 40, upperThreshold := 250,
               sortKey := kSortKeyRed\<rparr>) 0 0) = [\<lparr>start = 1, endx = 4\<rparr>] \<and>
   mask_zero (Some [255, 255, 0, 255, 255]) 2 \<and>
   fst (SortLine counter_gen insertion_sort
          [(9, 9, 9), (200, 0, 0), (100, 0, 0), (50, 0, 0), (7, 7, 7)]
          (MakeDefaultParams\<lparr>lowerThreshold := 40, upperThreshold := 250,
               sortKey := kSortKeyRed\<rparr>)
          (Some [255, 255, 0, 255, 255]) 0 0) =
     [(9, 9, 9), (50, 0, 0), (100, 0, 0), (200, 0, 0), (7, 7, 7)] \<and>
   fst (SortLine counter_gen insertion_sort
          [(9, 9, 9), (200, 0, 0), (100, 0, 0), (50, 0, 0), (7, 7, 7)]
          (MakeDefaultParams\<lparr>lowerThreshold := 40, upperThreshold := 250,
               sortKey := kSortKeyRed\<rparr>)
          (Some [255, 255, 0, 255, 255]) 0 0) ! 2 =
     [(9, 9, 9), (200, 0, 0), (100, 0, 0), (50, 0, 0), (7, 7, 7)] ! 2"
proof -
  let ?P = "MakeDefaultParams\<lparr>lowerThreshold := 40, upperThreshold := 250,
               sortKey := kSortKeyRed\<rparr>"
  let ?row = "[(9, 9, 9), (200, 0, 0), (100, 0, 0), (50, 0, 0), (7, 7, 7)] :: rgb list"
  let ?sel = "Some [255, 255, 0, 255, 255] :: BYTE list option"
  have z: "mask_zero ?sel (int 2)" by (simp add: mask_zero_def)
  have "(2 :: nat) < length ?row" by simp
  then have "fst (SortLine counter_gen insertion_sort ?row ?P ?sel 0 0) ! 2 = ?row ! 2"
    using SortLine_frame [OF insertion_sort_contract, of counter_gen ?row ?P ?sel 0 0] z
    by blast
  moreover have "fst (DetectSpans counter_gen ?row ?P 0 0) = [\<lparr>start = 1, endx = 4\<rparr>]"
    by (simp add: detect_eval key_eval f32_c10)
  moreover have "fst (SortLine counter_gen insertion_sort ?row ?P ?sel 0 0) =
     [(9, 9, 9), (50, 0, 0), (100, 0, 0), (200, 0, 0), (7, 7, 7)]"
    by (simp add: detect_eval line_eval key_eval f32_c10)
  ultimately show ?thesis using z insertion_sort_contract by simp
qed

section \<open>The unrotate step\<close>

















section \<open>Two passes give the same image\<close>

text \<open>
  C1: the image a pass produces does not depend on the generator state it starts from,
  since the pass re-seeds the generator: for every engine, seeding function, sort,
  parameter record, image and selection mask, two passes from any two generator states
  give the same image, and so does a second pass run from the state the first one left.
\<close>

theorem FilterRun_pass_deterministic:
  "fst (FilterRun_pass gen seed srt params fullW fullH fullImage fullSelect hasSelection rng1) =
   fst (FilterRun_pass gen seed srt params fullW fullH fullImage fullSelect hasSelection rng2) \<and>
   fst (FilterRun_pass gen seed srt params fullW fullH fullImage fullSelect hasSelection
          (snd (FilterRun_pass gen seed srt params fullW fullH fullImage fullSelect
                  hasSelection rng0))) =
   fst (FilterRun_pass gen seed srt params fullW fullH fullImage fullSelect hasSelection rng0)"
  by (simp add: FilterRun_pass_def)

end
